theory Spec2Isabelle
  imports Complex_Main
begin

section \<open>Values and errors\<close>

text \<open>
  The feed delivers JSON text; \<open>json.loads\<close> turns it into Python values. A parsed
  number is kept as the text Python's \<open>str\<close> gives for it (\<open>JNum ''1234.5''\<close>), since
  the program only ever looks at that text. The entries of a parsed object are kept
  as a list of key/value pairs read with \<open>map_of\<close>. Characters are single bytes.
\<close>

datatype json =
    JNull
  | JBool bool
  | JNum string
  | JStr string
  | JArr "json list"
  | JObj "(string \<times> json) list"

datatype py_error =
    IndexError
  | ValueError
  | KeyError
  | TypeError
  | JSONDecodeError
  | StatisticsError
  | ConnectionError

section \<open>SignalScorer: \<open>analyze_market\<close>\<close>

datatype signal = Even | Odd | Over3 | Under6

text \<open>\<open>str(t)[-1]\<close>: the last character of the text of a value.\<close>

fun str_last :: "json \<Rightarrow> py_error + char" where
  "str_last JNull = Inr (CHR ''e'')"
| "str_last (JBool b) = Inr (CHR ''e'')"
| "str_last (JNum s) = (if s = [] then Inl IndexError else Inr (last s))"
| "str_last (JStr s) = (if s = [] then Inl IndexError else Inr (last s))"
| "str_last (JArr xs) = Inr (CHR '']'')"
| "str_last (JObj kvs) = Inr (CHR ''}'')"

text \<open>\<open>int(c)\<close> on a one-character string: a decimal digit, or ValueError.\<close>

definition int_of_char :: "char \<Rightarrow> py_error + int" where
  "int_of_char c =
     (let n = (of_char c :: nat)
      in if 48 \<le> n \<and> n \<le> 57 then Inr (int n - 48) else Inl ValueError)"

definition last_digit :: "json \<Rightarrow> py_error + int" where
  "last_digit t = (case str_last t of Inl e \<Rightarrow> Inl e | Inr c \<Rightarrow> int_of_char c)"

text \<open>The comprehension \<open>[int(str(t)[-1]) for t in ticks]\<close> stops at the first raise.\<close>

fun last_digits :: "json list \<Rightarrow> py_error + int list" where
  "last_digits [] = Inr []"
| "last_digits (t # ts) =
     (case last_digit t of
        Inl e \<Rightarrow> Inl e
      | Inr d \<Rightarrow> (case last_digits ts of Inl e \<Rightarrow> Inl e | Inr ds \<Rightarrow> Inr (d # ds)))"

text \<open>\<open>sum(p(d) for d in xs)\<close> over booleans counts the elements satisfying \<open>p\<close>.\<close>

definition sum_bool :: "('a \<Rightarrow> bool) \<Rightarrow> 'a list \<Rightarrow> int" where
  "sum_bool p xs = sum_list (map (\<lambda>d. if p d then 1 else 0) xs)"

text \<open>\<open>xs[-n:]\<close> for a positive literal \<open>n\<close>: the last \<open>n\<close> elements, or all of them.\<close>

definition last_n :: "nat \<Rightarrow> 'a list \<Rightarrow> 'a list" where
  "last_n n xs = drop (length xs - n) xs"

text \<open>
  \<open>statistics.pstdev\<close>: the square root of the mean squared deviation from the mean;
  StatisticsError on empty data. Arithmetic on Python floats is taken as exact
  arithmetic on the reals throughout.
\<close>

definition mean :: "int list \<Rightarrow> real" where
  "mean xs = real_of_int (sum_list xs) / real (length xs)"

definition pvariance :: "int list \<Rightarrow> real" where
  "pvariance xs = sum_list (map (\<lambda>x. (real_of_int x - mean xs)\<^sup>2) xs) / real (length xs)"

definition pstdev :: "int list \<Rightarrow> py_error + real" where
  "pstdev xs = (if xs = [] then Inl StatisticsError else Inr (sqrt (pvariance xs)))"

text \<open>The dictionary \<open>strength\<close>, in the order its keys are written.\<close>

definition strength :: "int list \<Rightarrow> real \<Rightarrow> (signal \<times> real) list" where
  "strength digits vol =
     (let even_count = sum_bool (\<lambda>d. d mod 2 = 0) digits;
          odd_count = int (length digits) - even_count;
          over3_count = sum_bool (\<lambda>d. d > 3) digits;
          under6_count = sum_bool (\<lambda>d. d < 6) digits;
          last5 = last_n 5 digits;
          streak_even = real_of_int (sum_bool (\<lambda>d. d mod 2 = 0) last5) / 5;
          streak_over3 = real_of_int (sum_bool (\<lambda>d. d > 3) last5) / 5;
          n = real (length digits)
      in [(Even, (real_of_int even_count / n + streak_even * 0.4) / (1 + vol / 10)),
          (Odd, (real_of_int odd_count / n + (1 - streak_even) * 0.4) / (1 + vol / 10)),
          (Over3, (real_of_int over3_count / n + streak_over3 * 0.4) / (1 + vol / 10)),
          (Under6, (real_of_int under6_count / n + (1 - streak_over3) * 0.4) / (1 + vol / 10))])"

text \<open>
  \<open>max(d, key=d.get)\<close> walks the keys in order and replaces the running best only by
  a strictly larger value, so the first maximum wins; ValueError on no keys.
\<close>

fun max_from :: "('k \<times> real) \<Rightarrow> ('k \<times> real) list \<Rightarrow> ('k \<times> real)" where
  "max_from best [] = best"
| "max_from best (kv # kvs) = max_from (if snd kv > snd best then kv else best) kvs"

definition max_key :: "('k \<times> real) list \<Rightarrow> py_error + ('k \<times> real)" where
  "max_key d = (case d of [] \<Rightarrow> Inl ValueError | kv # kvs \<Rightarrow> Inr (max_from kv kvs))"

definition analyze_market :: "string \<Rightarrow> json list \<Rightarrow> py_error + (signal \<times> real) option" where
  "analyze_market market ticks =
     (if length ticks < 30 then Inr None
      else case last_digits ticks of
             Inl e \<Rightarrow> Inl e
           | Inr digits \<Rightarrow>
               (case pstdev (last_n 20 digits) of
                  Inl e \<Rightarrow> Inl e
                | Inr vol \<Rightarrow>
                    (case max_key (strength digits vol) of
                       Inl e \<Rightarrow> Inl e
                     | Inr (best_signal, confidence) \<Rightarrow> Inr (Some (best_signal, confidence)))))"

text \<open>
  The scorer as the specification words it: for each classification a base ratio over
  the whole window, a short-term bias over the last five digits, and the population
  standard deviation of the last twenty digits as the dampener. Only two short-term
  fractions are computed (even, over 3); Odd and Under 6 take their complements.
\<close>

definition fraction :: "(int \<Rightarrow> bool) \<Rightarrow> int list \<Rightarrow> real" where
  "fraction p xs = real (length (filter p xs)) / real (length xs)"

fun base_ratio :: "signal \<Rightarrow> int list \<Rightarrow> real" where
  "base_ratio Even xs = fraction (\<lambda>d. d mod 2 = 0) xs"
| "base_ratio Odd xs = fraction (\<lambda>d. d mod 2 \<noteq> 0) xs"
| "base_ratio Over3 xs = fraction (\<lambda>d. 3 < d) xs"
| "base_ratio Under6 xs = fraction (\<lambda>d. d < 6) xs"

fun short_term_bias :: "signal \<Rightarrow> int list \<Rightarrow> real" where
  "short_term_bias Even xs = fraction (\<lambda>d. d mod 2 = 0) xs"
| "short_term_bias Odd xs = 1 - fraction (\<lambda>d. d mod 2 = 0) xs"
| "short_term_bias Over3 xs = fraction (\<lambda>d. 3 < d) xs"
| "short_term_bias Under6 xs = 1 - fraction (\<lambda>d. 3 < d) xs"

definition volatility :: "int list \<Rightarrow> real" where
  "volatility xs = sqrt (pvariance (last_n 20 xs))"

definition spec_score :: "signal \<Rightarrow> int list \<Rightarrow> real" where
  "spec_score c xs =
     (base_ratio c xs + 0.4 * short_term_bias c (last_n 5 xs)) / (1 + volatility xs / 10)"

text \<open>The position of a classification among the keys of \<open>strength\<close>.\<close>

fun rank :: "signal \<Rightarrow> nat" where
  "rank Even = 0"
| "rank Odd = 1"
| "rank Over3 = 2"
| "rank Under6 = 3"

text \<open>The all-even test buffer: the ticks 0, 2, 4, 6, 8 repeated forty times.\<close>

definition even_block :: "json list" where
  "even_block = [JNum ''0'', JNum ''2'', JNum ''4'', JNum ''6'', JNum ''8'']"

definition even_buffer :: "json list" where
  "even_buffer = concat (replicate 40 even_block)"

section \<open>TickBuffer and StreamIngestor: \<open>on_message\<close>\<close>

definition MARKETS :: "string list" where
  "MARKETS = [''R_10'', ''R_25'', ''R_50'', ''R_75'', ''R_100'']"

definition MARKET_NAMES :: "(string \<times> string) list" where
  "MARKET_NAMES =
     [(''R_10'', ''Volatility 10 Index''), (''R_25'', ''Volatility 25 Index''),
      (''R_50'', ''Volatility 50 Index''), (''R_75'', ''Volatility 75 Index''),
      (''R_100'', ''Volatility 100 Index'')]"

type_synonym buffers = "string \<rightharpoonup> json list"

text \<open>\<open>market_ticks = {market: [] for market in MARKETS}\<close>\<close>

definition initial_ticks :: buffers where
  "initial_ticks = map_of (map (\<lambda>market. (market, [])) MARKETS)"

text \<open>
  A websocket frame is text; \<open>json.loads\<close> either parses it or raises
  JSONDecodeError.
\<close>

datatype frame = NotJson | Json json

datatype outcome = Returned | Raised py_error

text \<open>\<open>sub in s\<close> on two strings: \<open>sub\<close> occurs in \<open>s\<close>.\<close>

fun occurs_in :: "string \<Rightarrow> string \<Rightarrow> bool" where
  "occurs_in sub [] = (sub = [])"
| "occurs_in sub (c # cs) = (take (length sub) (c # cs) = sub \<or> occurs_in sub cs)"

text \<open>
  \<open>"tick" in data\<close>: a key test on a dict, an element test on a list, a substring
  test on a string; TypeError on a number, a boolean or null.
\<close>

fun has_tick :: "json \<Rightarrow> py_error + bool" where
  "has_tick (JObj kvs) = Inr (map_of kvs ''tick'' \<noteq> None)"
| "has_tick (JArr xs) = Inr (JStr ''tick'' \<in> set xs)"
| "has_tick (JStr s) = Inr (occurs_in ''tick'' s)"
| "has_tick (JNum s) = Inl TypeError"
| "has_tick (JBool b) = Inl TypeError"
| "has_tick JNull = Inl TypeError"

text \<open>\<open>v[key]\<close> with a string key: only a dict can be read so.\<close>

fun subscript :: "json \<Rightarrow> string \<Rightarrow> py_error + json" where
  "subscript (JObj kvs) key = (case map_of kvs key of None \<Rightarrow> Inl KeyError | Some v \<Rightarrow> Inr v)"
| "subscript (JArr xs) key = Inl TypeError"
| "subscript (JStr s) key = Inl TypeError"
| "subscript (JNum s) key = Inl TypeError"
| "subscript (JBool b) key = Inl TypeError"
| "subscript JNull key = Inl TypeError"

text \<open>
  \<open>market_ticks[symbol]\<close>: a list or dict is unhashable (TypeError); any other value
  that is not one of the keys raises KeyError.
\<close>

fun lookup_buffer :: "buffers \<Rightarrow> json \<Rightarrow> py_error + (string \<times> json list)" where
  "lookup_buffer mt (JStr s) = (case mt s of None \<Rightarrow> Inl KeyError | Some b \<Rightarrow> Inr (s, b))"
| "lookup_buffer mt (JArr xs) = Inl TypeError"
| "lookup_buffer mt (JObj kvs) = Inl TypeError"
| "lookup_buffer mt (JNum s) = Inl KeyError"
| "lookup_buffer mt (JBool b) = Inl KeyError"
| "lookup_buffer mt JNull = Inl KeyError"

text \<open>\<open>buf.append(quote)\<close>, then \<open>buf.pop(0)\<close> once the length exceeds 200.\<close>

definition push :: "'a \<Rightarrow> 'a list \<Rightarrow> 'a list" where
  "push quote buf = (let buf' = buf @ [quote] in if length buf' > 200 then tl buf' else buf')"

text \<open>
  The handler returns how the call ended together with the buffers it leaves behind,
  so that a raise keeps the state it was reached in.
\<close>

definition on_message :: "buffers \<Rightarrow> frame \<Rightarrow> outcome \<times> buffers" where
  "on_message mt message =
     (case message of
        NotJson \<Rightarrow> (Raised JSONDecodeError, mt)
      | Json data \<Rightarrow>
          (case has_tick data of
             Inl e \<Rightarrow> (Raised e, mt)
           | Inr False \<Rightarrow> (Returned, mt)
           | Inr True \<Rightarrow>
               (case subscript data ''tick'' of
                  Inl e \<Rightarrow> (Raised e, mt)
                | Inr tick \<Rightarrow>
                    (case subscript tick ''symbol'' of
                       Inl e \<Rightarrow> (Raised e, mt)
                     | Inr symbol \<Rightarrow>
                         (case subscript tick ''quote'' of
                            Inl e \<Rightarrow> (Raised e, mt)
                          | Inr quote \<Rightarrow>
                              (case lookup_buffer mt symbol of
                                 Inl e \<Rightarrow> (Raised e, mt)
                               | Inr (s, buf) \<Rightarrow> (Returned, mt(s \<mapsto> push quote buf))))))))"

text \<open>The buffers after the handler has been called on each frame in turn.\<close>

fun feed :: "buffers \<Rightarrow> frame list \<Rightarrow> buffers" where
  "feed mt [] = mt"
| "feed mt (message # rest) = feed (snd (on_message mt message)) rest"

text \<open>
  What the handler reads from a frame before it looks a buffer up: the string under
  \<open>symbol\<close> and the value under \<open>quote\<close> of the object under \<open>tick\<close>, whatever
  else the frame carries. The quote is not inspected: any JSON value passes.
\<close>

definition tick_of :: "frame \<Rightarrow> (string \<times> json) option" where
  "tick_of message =
     (case message of
        Json (JObj kvs) \<Rightarrow>
          (case map_of kvs ''tick'' of
             Some (JObj t) \<Rightarrow>
               (case (map_of t ''symbol'', map_of t ''quote'') of
                  (Some (JStr s), Some q) \<Rightarrow> Some (s, q)
                | _ \<Rightarrow> None)
           | _ \<Rightarrow> None)
      | _ \<Rightarrow> None)"

text \<open>
  A well-formed tick event as the specification has it: an instrument identifier and
  a numeric quote. Every other frame is malformed.
\<close>

definition well_formed_tick :: "frame \<Rightarrow> bool" where
  "well_formed_tick message = (case tick_of message of Some (s, JNum n) \<Rightarrow> True | _ \<Rightarrow> False)"

text \<open>The quotes that a sequence of frames carries for one instrument, in arrival order.\<close>

fun quotes_for :: "string \<Rightarrow> frame list \<Rightarrow> json list" where
  "quotes_for m [] = []"
| "quotes_for m (message # rest) =
     (case tick_of message of
        Some (s, q) \<Rightarrow> (if s = m then q # quotes_for m rest else quotes_for m rest)
      | None \<Rightarrow> quotes_for m rest)"

definition tick_frame :: "string \<Rightarrow> json \<Rightarrow> frame" where
  "tick_frame s q = Json (JObj [(''tick'', JObj [(''symbol'', JStr s), (''quote'', q)])])"

text \<open>
  Thirty ticks for R_10 whose quote is the number that \<open>json.loads\<close> reads from
  \<open>1e999\<close> or \<open>Infinity\<close>: the float infinity, whose text is \<open>inf\<close>. The buffer they
  leave behind holds thirty such quotes.
\<close>

definition inf_frames :: "frame list" where
  "inf_frames = replicate 30 (tick_frame ''R_10'' (JNum ''inf''))"

definition inf_buffer :: "json list" where
  "inf_buffer = replicate 30 (JNum ''inf'')"

section \<open>MarketSelector and NotificationSequencer: \<open>fetch_and_analyze\<close>\<close>

type_synonym msg_id = int

text \<open>
  What a caption announces; the wall-clock times printed in it are left out. The main
  caption carries the display name, the signal, the entry digit and the confidence.
\<close>

datatype notification =
    Pre_alert
  | Main_signal string "signal option" "int option" real
  | Signal_expired string

datatype request = SendPhoto notification | DeleteMessage msg_id

text \<open>
  How one \<open>requests.post\<close> ends: a response that is \<open>ok\<close> and carries a message
  id, a response that is not \<open>ok\<close>, or an exception raised by the call.
\<close>

datatype response = Resp_ok msg_id | Resp_fail | Post_raises py_error

text \<open>
  The globals of the module, and the requests posted so far. The network is a function
  from the number of requests already posted to the way the next one ends.
\<close>

record bot_state =
  market_ticks :: buffers
  active_messages :: "msg_id list"
  last_expired_id :: "msg_id option"
  posted :: "request list"

type_synonym network = "nat \<Rightarrow> response"

type_synonym 'a action = "bot_state \<Rightarrow> (py_error + 'a) \<times> bot_state"

definition returns :: "'a \<Rightarrow> 'a action" where
  "returns x st = (Inr x, st)"

definition and_then :: "'a action \<Rightarrow> ('a \<Rightarrow> 'b action) \<Rightarrow> 'b action" where
  "and_then f g st = (case f st of (Inl e, st') \<Rightarrow> (Inl e, st') | (Inr x, st') \<Rightarrow> g x st')"

definition post :: "network \<Rightarrow> request \<Rightarrow> response action" where
  "post net req st =
     (let st' = st\<lparr>posted := posted st @ [req]\<rparr>
      in case net (length (posted st)) of
           Post_raises e \<Rightarrow> (Inl e, st')
         | resp \<Rightarrow> (Inr resp, st'))"

definition send_telegram_message :: "network \<Rightarrow> notification \<Rightarrow> bool \<Rightarrow> msg_id option action" where
  "send_telegram_message net message keep =
     and_then (post net (SendPhoto message))
       (\<lambda>resp st. case resp of
            Resp_ok msg_id \<Rightarrow>
              (Inr (Some msg_id),
               if \<not> keep then st\<lparr>active_messages := active_messages st @ [msg_id]\<rparr> else st)
          | _ \<Rightarrow> (Inr None, st))"

fun delete_each :: "network \<Rightarrow> msg_id list \<Rightarrow> unit action" where
  "delete_each net [] = returns ()"
| "delete_each net (msg_id # rest) =
     and_then (post net (DeleteMessage msg_id)) (\<lambda>_. delete_each net rest)"

definition delete_messages :: "network \<Rightarrow> unit action" where
  "delete_messages net =
     and_then (\<lambda>st. delete_each net (active_messages st) st)
       (\<lambda>_ st. (Inr (), st\<lparr>active_messages := []\<rparr>))"

text \<open>\<open>if last_expired_id:\<close> holds for an id that is neither None nor 0.\<close>

definition delete_last_expired :: "network \<Rightarrow> unit action" where
  "delete_last_expired net st =
     (case last_expired_id st of
        None \<Rightarrow> (Inr (), st)
      | Some msg_id \<Rightarrow>
          if msg_id \<noteq> 0
          then and_then (post net (DeleteMessage msg_id))
                 (\<lambda>_ st'. (Inr (), st'\<lparr>last_expired_id := None\<rparr>)) st
          else (Inr (), st))"

text \<open>
  The loop over \<open>MARKETS\<close>, carrying \<open>best_market, best_signal, best_confidence\<close>.
\<close>

fun select_loop ::
  "buffers \<Rightarrow> string list \<Rightarrow> string option \<times> signal option \<times> real
     \<Rightarrow> py_error + (string option \<times> signal option \<times> real)" where
  "select_loop mt [] best = Inr best"
| "select_loop mt (market # rest) (best_market, best_signal, best_confidence) =
     (case mt market of
        None \<Rightarrow> Inl KeyError
      | Some ticks \<Rightarrow>
          if length ticks > 20
          then (case analyze_market market ticks of
                  Inl e \<Rightarrow> Inl e
                | Inr None \<Rightarrow> select_loop mt rest (best_market, best_signal, best_confidence)
                | Inr (Some (signal, confidence)) \<Rightarrow>
                    if confidence > best_confidence
                    then select_loop mt rest (Some market, Some signal, confidence)
                    else select_loop mt rest (best_market, best_signal, best_confidence))
          else select_loop mt rest (best_market, best_signal, best_confidence))"

definition select_market :: "buffers \<Rightarrow> py_error + (string option \<times> signal option \<times> real)" where
  "select_market mt = select_loop mt MARKETS (None, None, 0)"

text \<open>\<open>MARKET_NAMES.get(best_market, best_market)\<close>\<close>

definition market_name :: "string \<Rightarrow> string" where
  "market_name m = (case map_of MARKET_NAMES m of None \<Rightarrow> m | Some name \<Rightarrow> name)"

text \<open>
  \<open>int(str(market_ticks[best_market][-1])[-1]) if market_ticks[best_market] else None\<close>
\<close>

definition entry_digit :: "buffers \<Rightarrow> string \<Rightarrow> py_error + int option" where
  "entry_digit mt m =
     (case mt m of
        None \<Rightarrow> Inl KeyError
      | Some ticks \<Rightarrow>
          if ticks = [] then Inr None
          else (case last_digit (last ticks) of Inl e \<Rightarrow> Inl e | Inr d \<Rightarrow> Inr (Some d)))"

text \<open>
  One cycle. The feed thread keeps appending while the cycle sleeps, so the buffers
  read for the entry digit, one minute after the selection, are a separate argument
  \<open>later\<close>. The sleeps themselves change nothing.
\<close>

definition fetch_and_analyze :: "network \<Rightarrow> buffers \<Rightarrow> unit action" where
  "fetch_and_analyze net later =
     and_then (delete_last_expired net)
       (\<lambda>_ st.
          case select_market (market_ticks st) of
            Inl e \<Rightarrow> (Inl e, st)
          | Inr (best_market, best_signal, best_confidence) \<Rightarrow>
              (case best_market of
                 None \<Rightarrow> (Inr (), st)
               | Some m \<Rightarrow>
                   if m = [] then (Inr (), st)
                   else
                     and_then (send_telegram_message net Pre_alert False)
                       (\<lambda>_ st1.
                          case entry_digit later m of
                            Inl e \<Rightarrow> (Inl e, st1)
                          | Inr digit \<Rightarrow>
                              and_then
                                (send_telegram_message net
                                   (Main_signal (market_name m) best_signal digit best_confidence)
                                   False)
                                (\<lambda>_. and_then
                                   (send_telegram_message net (Signal_expired (market_name m)) True)
                                   (\<lambda>sent st3.
                                      delete_messages net (st3\<lparr>last_expired_id := sent\<rparr>)))
                                st1)
                       st))"

text \<open>The delete request that opens a cycle, if the state retains an expiry handle.\<close>

definition opening_delete :: "bot_state \<Rightarrow> request list" where
  "opening_delete st =
     (case last_expired_id st of
        None \<Rightarrow> []
      | Some msg_id \<Rightarrow> if msg_id \<noteq> 0 then [DeleteMessage msg_id] else [])"

text \<open>The handle a response yields: its message id, or absence.\<close>

definition handle_of :: "response \<Rightarrow> msg_id option" where
  "handle_of resp = (case resp of Resp_ok msg_id \<Rightarrow> Some msg_id | _ \<Rightarrow> None)"

definition handles_of :: "response list \<Rightarrow> msg_id list" where
  "handles_of resps = concat (map (\<lambda>resp. case handle_of resp of None \<Rightarrow> [] | Some i \<Rightarrow> [i]) resps)"

text \<open>A state for examples: the all-even buffer for R_10, nothing for the others.\<close>

definition even_ticks :: buffers where
  "even_ticks = initial_ticks(''R_10'' \<mapsto> even_buffer)"

definition idle_state :: bot_state where
  "idle_state = \<lparr>market_ticks = even_ticks, active_messages = [], last_expired_id = None, posted = []\<rparr>"

text \<open>
  Three networks for examples: every request answered with a fresh id; the second
  request (the main signal of an idle first cycle) answered with a response that is
  not \<open>ok\<close>; the second request raising a connection error.
\<close>

definition steady_network :: network where
  "steady_network k = Resp_ok (int k + 100)"



section \<open>Properties of the scorer\<close>

subsection \<open>Counting, windows and the maximum\<close>

lemma last_digits_length: "last_digits ts = Inr ds \<Longrightarrow> length ds = length ts"
  by (induction ts arbitrary: ds) (auto split: sum.splits)

lemma last_digits_append:
  "last_digits xs = Inr a \<Longrightarrow> last_digits ys = Inr b \<Longrightarrow> last_digits (xs @ ys) = Inr (a @ b)"
  by (induction xs arbitrary: a) (auto split: sum.splits)

lemma last_digits_repeat:
  "last_digits blk = Inr d \<Longrightarrow> last_digits (concat (replicate n blk)) = Inr (concat (replicate n d))"
  by (induction n) (simp_all add: last_digits_append)

lemma last_digits_replicate:
  "last_digit t = Inr d \<Longrightarrow> last_digits (replicate n t) = Inr (replicate n d)"
  by (induction n) simp_all

lemma sum_bool_filter: "sum_bool p xs = int (length (filter p xs))"
  by (induction xs) (auto simp: sum_bool_def)

lemma sum_bool_compl: "sum_bool p xs + sum_bool (\<lambda>x. \<not> p x) xs = int (length xs)"
  by (induction xs) (auto simp: sum_bool_def)

lemma sum_bool_append: "sum_bool p (xs @ ys) = sum_bool p xs + sum_bool p ys"
  by (simp add: sum_bool_def)

lemma sum_bool_repeat: "sum_bool p (concat (replicate n xs)) = int n * sum_bool p xs"
  by (induction n) (simp_all add: sum_bool_append algebra_simps, simp add: sum_bool_def)

lemma length_repeat: "length (concat (replicate n xs)) = n * length xs"
  by (induction n) simp_all

lemma repeat_split:
  "concat (replicate (m + n) xs) = concat (replicate m xs) @ concat (replicate n xs)"
  by (simp add: replicate_add)

lemma length_last_n: "length (last_n n xs) = min n (length xs)"
  by (auto simp: last_n_def)

lemma last_n_append: "length ys = n \<Longrightarrow> last_n n (xs @ ys) = ys"
  by (simp add: last_n_def)

lemma max_key4:
  assumes "max_key [(Even, a), (Odd, b), (Over3, c), (Under6, d)] = Inr (s, v)"
  shows "map_of [(Even, a), (Odd, b), (Over3, c), (Under6, d)] s = Some v"
    and "\<And>s' v'. map_of [(Even, a), (Odd, b), (Over3, c), (Under6, d)] s' = Some v' \<Longrightarrow> v' \<le> v"
    and "\<And>s' v'. map_of [(Even, a), (Odd, b), (Over3, c), (Under6, d)] s' = Some v' \<Longrightarrow>
           v' = v \<Longrightarrow> rank s \<le> rank s'"
  using assms by (auto simp: max_key_def split: if_splits)

lemma max_key_strength_total: "\<exists>kv. max_key (strength ds vol) = Inr kv"
  by (simp add: strength_def max_key_def Let_def)

subsection \<open>The dictionary \<open>strength\<close> holds the specified scores\<close>

lemma odd_count_filter:
  "int (length xs) - sum_bool (\<lambda>d. d mod 2 = 0) xs
     = int (length (filter (\<lambda>d::int. d mod 2 \<noteq> 0) xs))"
  using sum_bool_compl [of "\<lambda>d::int. d mod 2 = 0" xs] by (simp add: sum_bool_filter)

lemma sum_bool_fraction: "real_of_int (sum_bool p xs) / real (length xs) = fraction p xs"
  by (simp add: sum_bool_filter fraction_def)

lemma strength_spec:
  assumes "5 \<le> length ds"
  shows "strength ds (volatility ds) =
     [(Even, spec_score Even ds), (Odd, spec_score Odd ds),
      (Over3, spec_score Over3 ds), (Under6, spec_score Under6 ds)]"
proof -
  have l5: "length (last_n 5 ds) = 5" using assms by (simp add: length_last_n)
  have od: "real_of_int (int (length ds) - sum_bool (\<lambda>d. d mod 2 = 0) ds) / real (length ds)
      = fraction (\<lambda>d. d mod 2 \<noteq> 0) ds"
    by (simp only: odd_count_filter fraction_def of_int_of_nat_eq)
  have s5: "\<And>p. real_of_int (sum_bool p (last_n 5 ds)) / 5 = fraction p (last_n 5 ds)"
    using l5 by (simp add: sum_bool_filter fraction_def)
  show ?thesis
    unfolding strength_def Let_def spec_score_def base_ratio.simps short_term_bias.simps
      sum_bool_fraction od s5
    by (simp add: mult.commute)
qed

lemma pstdev_last20:
  assumes "1 \<le> length ds"
  shows "pstdev (last_n 20 ds) = Inr (volatility ds)"
proof -
  have "0 < length (last_n 20 ds)" using assms by (auto simp: length_last_n)
  then have "last_n 20 ds \<noteq> []" by (rule length_greater_0_conv [THEN iffD1])
  then show ?thesis by (simp add: pstdev_def volatility_def)
qed

lemma volatility_nonneg: "0 \<le> volatility ds"
  by (auto simp: volatility_def pvariance_def intro!: divide_nonneg_nonneg sum_list_nonneg)

lemma analyze_market_max_key:
  assumes "30 \<le> length ticks" and "last_digits ticks = Inr ds"
  shows "analyze_market market ticks =
     (case max_key (strength ds (volatility ds)) of Inl e \<Rightarrow> Inl e | Inr kv \<Rightarrow> Inr (Some kv))"
proof -
  have "length ds = length ticks" using assms(2) by (rule last_digits_length)
  then have "1 \<le> length ds" using assms(1) by simp
  then have "pstdev (last_n 20 ds) = Inr (volatility ds)" by (rule pstdev_last20)
  then show ?thesis using assms by (simp add: analyze_market_def split: sum.splits prod.splits)
qed

text \<open>
  C1, as amended. For a buffer of at least 30 ticks whose last digits can all be
  read, the four entries of \<open>strength\<close> are the specified scores: base ratio over the whole window
  plus 0.4 times the short-term bias over the last five digits, divided by
  \<open>1 + v/10\<close> with \<open>v\<close> the population standard deviation of the last twenty digits.
  The bias of Odd is one minus the even fraction and the bias of Under 6 is one
  minus the over-3 fraction. The call returns a classification of maximal score,
  with that score as confidence.
\<close>

theorem analyze_market_scores:
  assumes "30 \<le> length ticks" and "last_digits ticks = Inr ds"
  shows "strength ds (volatility ds) =
           [(Even, spec_score Even ds), (Odd, spec_score Odd ds),
            (Over3, spec_score Over3 ds), (Under6, spec_score Under6 ds)]
         \<and> pstdev (last_n 20 ds) = Inr (volatility ds)
         \<and> (\<exists>best. analyze_market market ticks = Inr (Some (best, spec_score best ds))
                \<and> (\<forall>c. spec_score c ds \<le> spec_score best ds))"
proof -
  have len: "length ds = length ticks" using assms(2) by (rule last_digits_length)
  then have five: "5 \<le> length ds" and one: "1 \<le> length ds" using assms(1) by simp_all
  note st = strength_spec [OF five]
  obtain best conf where mk: "max_key (strength ds (volatility ds)) = Inr (best, conf)"
    using max_key_strength_total [of ds "volatility ds"] by auto
  note mk4 = max_key4 [OF mk [unfolded st]]
  have conf: "conf = spec_score best ds"
    using mk4(1) by (cases best) auto
  have le: "spec_score c ds \<le> conf" for c
    by (rule mk4(2) [of c]) (cases c, auto)
  have "analyze_market market ticks = Inr (Some (best, conf))"
    using analyze_market_max_key [OF assms, of market] mk by simp
  with conf le st pstdev_last20 [OF one] show ?thesis by auto
qed

theorem analyze_market_scores_witness:
  "30 \<le> length (replicate 30 (JNum ''12.7''))
   \<and> last_digits (replicate 30 (JNum ''12.7'')) = Inr (replicate 30 7)
   \<and> (\<exists>best. analyze_market ''R_10'' (replicate 30 (JNum ''12.7''))
                 = Inr (Some (best, spec_score best (replicate 30 7)))
          \<and> (\<forall>c. spec_score c (replicate 30 7) \<le> spec_score best (replicate 30 7)))"
proof -
  have len: "30 \<le> length (replicate 30 (JNum ''12.7''))" by simp
  have "last_digit (JNum ''12.7'') = Inr 7" by (simp add: last_digit_def int_of_char_def)
  then have digs: "last_digits (replicate 30 (JNum ''12.7'')) = Inr (replicate 30 7)"
    by (rule last_digits_replicate)
  show ?thesis using len digs analyze_market_scores [OF len digs, of "''R_10''"] by blast
qed



subsection \<open>Bounds on the scores\<close>

lemma fraction_nonneg: "0 \<le> fraction p xs"
  by (simp add: fraction_def)

lemma fraction_le_1: "fraction p xs \<le> 1"
proof (cases "xs = []")
  case True
  then show ?thesis by (simp add: fraction_def)
next
  case False
  have "real (length (filter p xs)) \<le> real (length xs)" by simp
  with False show ?thesis by (simp add: fraction_def)
qed

lemma fraction_compl:
  assumes "xs \<noteq> []"
  shows "fraction p xs + fraction (\<lambda>x. \<not> p x) xs = 1"
proof -
  have "length (filter p xs) + length (filter (\<lambda>x. \<not> p x) xs) = length xs"
    by (rule sum_length_filter_compl)
  then have "real (length (filter p xs)) + real (length (filter (\<lambda>x. \<not> p x) xs))
      = real (length xs)"
    by (simp only: of_nat_add [symmetric])
  with assms show ?thesis by (simp add: fraction_def add_divide_distrib [symmetric])
qed

lemma numerator_bounds:
  "0 \<le> base_ratio c xs + 0.4 * short_term_bias c (last_n 5 xs)"
  "base_ratio c xs + 0.4 * short_term_bias c (last_n 5 xs) \<le> 1.4"
proof -
  have b: "0 \<le> base_ratio c xs \<and> base_ratio c xs \<le> 1"
    by (cases c) (simp_all add: fraction_nonneg fraction_le_1)
  have s: "0 \<le> short_term_bias c (last_n 5 xs) \<and> short_term_bias c (last_n 5 xs) \<le> 1"
    by (cases c) (simp_all add: fraction_nonneg fraction_le_1)
  from b s show "0 \<le> base_ratio c xs + 0.4 * short_term_bias c (last_n 5 xs)" by simp
  from b s show "base_ratio c xs + 0.4 * short_term_bias c (last_n 5 xs) \<le> 1.4" by simp
qed

lemma spec_score_le: "spec_score c xs \<le> 1.4"
proof -
  let ?num = "base_ratio c xs + 0.4 * short_term_bias c (last_n 5 xs)"
  let ?den = "1 + volatility xs / 10"
  have den: "1 \<le> ?den" using volatility_nonneg [of xs] by simp
  have "?num / ?den \<le> ?num / 1"
    using numerator_bounds(1) [of c xs] den by (intro divide_left_mono) simp_all
  also have "\<dots> \<le> 1.4" using numerator_bounds(2) [of c xs] by simp
  finally show ?thesis by (simp add: spec_score_def)
qed

lemma spec_score_even_odd:
  assumes "xs \<noteq> []"
  shows "0 < spec_score Even xs + spec_score Odd xs"
proof -
  let ?den = "1 + volatility xs / 10"
  let ?nE = "base_ratio Even xs + 0.4 * short_term_bias Even (last_n 5 xs)"
  let ?nO = "base_ratio Odd xs + 0.4 * short_term_bias Odd (last_n 5 xs)"
  have den: "0 < ?den" using volatility_nonneg [of xs] by simp
  have f: "fraction (\<lambda>d. d mod 2 = 0) xs + fraction (\<lambda>d. d mod 2 \<noteq> 0) xs = 1"
    using assms by (rule fraction_compl)
  have gen: "a + 0.4 * s + (b + 0.4 * (1 - s)) = 1.4" if "a + b = 1" for a b s :: real
  proof -
    from that have "b = 1 - a" by simp
    then show ?thesis by (simp add: algebra_simps diff_divide_distrib)
  qed
  have num: "?nE + ?nO = 1.4"
    unfolding base_ratio.simps short_term_bias.simps by (rule gen [OF f])
  have "spec_score Even xs + spec_score Odd xs = (?nE + ?nO) / ?den"
    unfolding spec_score_def by (rule add_divide_distrib [symmetric])
  also have "\<dots> = 1.4 / ?den" by (simp only: num)
  finally show ?thesis using den by simp
qed

lemma confidence_bounds:
  assumes "30 \<le> length ticks"
    and "analyze_market market ticks = Inr (Some (best, conf))"
  shows "0 < conf" and "conf \<le> 1.4"
proof -
  obtain ds where ds: "last_digits ticks = Inr ds"
    using assms by (auto simp: analyze_market_def split: sum.splits)
  have len: "length ds = length ticks" using ds by (rule last_digits_length)
  then have five: "5 \<le> length ds" and ne: "ds \<noteq> []" using assms(1) by auto
  note st = strength_spec [OF five]
  have mk: "max_key (strength ds (volatility ds)) = Inr (best, conf)"
    using analyze_market_max_key [OF assms(1) ds, of market] assms(2)
    by (auto split: sum.splits)
  note mk4 = max_key4 [OF mk [unfolded st]]
  have conf: "conf = spec_score best ds"
    using mk4(1) by (cases best) auto
  have "spec_score Even ds \<le> conf" by (rule mk4(2) [of Even]) simp
  moreover have "spec_score Odd ds \<le> conf" by (rule mk4(2) [of Odd]) simp
  ultimately show "0 < conf" using spec_score_even_odd [OF ne] by linarith
  show "conf \<le> 1.4" unfolding conf by (rule spec_score_le)
qed

subsection \<open>The all-even buffer\<close>

lemma even_block_digits: "last_digits even_block = Inr [0, 2, 4, 6, 8]"
  by (simp add: even_block_def last_digit_def int_of_char_def)

lemma even_buffer_digits:
  "last_digits even_buffer = Inr (concat (replicate 40 [0, 2, 4, 6, 8]))"
  unfolding even_buffer_def by (rule last_digits_repeat [OF even_block_digits])

lemma even_buffer_length: "length even_buffer = 200"
  by (simp add: even_buffer_def even_block_def length_repeat)

lemma even_last5: "last_n 5 (concat (replicate 40 [0, 2, 4, 6, 8 :: int])) = [0, 2, 4, 6, 8]"
proof -
  have "concat (replicate (39 + 1) [0, 2, 4, 6, 8 :: int])
      = concat (replicate 39 [0, 2, 4, 6, 8]) @ concat (replicate 1 [0, 2, 4, 6, 8])"
    by (rule repeat_split)
  then have "concat (replicate 40 [0, 2, 4, 6, 8 :: int])
      = concat (replicate 39 [0, 2, 4, 6, 8]) @ [0, 2, 4, 6, 8]"
    by simp
  then show ?thesis by (simp add: last_n_append)
qed

lemma even_last20:
  "last_n 20 (concat (replicate 40 [0, 2, 4, 6, 8 :: int]))
     = [0, 2, 4, 6, 8, 0, 2, 4, 6, 8, 0, 2, 4, 6, 8, 0, 2, 4, 6, 8]"
proof -
  have "concat (replicate (36 + 4) [0, 2, 4, 6, 8 :: int])
      = concat (replicate 36 [0, 2, 4, 6, 8]) @ concat (replicate 4 [0, 2, 4, 6, 8])"
    by (rule repeat_split)
  moreover have "concat (replicate 4 [0, 2, 4, 6, 8 :: int])
      = [0, 2, 4, 6, 8, 0, 2, 4, 6, 8, 0, 2, 4, 6, 8, 0, 2, 4, 6, 8]"
    by (simp add: numeral_eq_Suc)
  ultimately have "concat (replicate 40 [0, 2, 4, 6, 8 :: int])
      = concat (replicate 36 [0, 2, 4, 6, 8])
        @ [0, 2, 4, 6, 8, 0, 2, 4, 6, 8, 0, 2, 4, 6, 8, 0, 2, 4, 6, 8]"
    by simp
  then show ?thesis by (simp add: last_n_append)
qed

lemma even_volatility: "volatility (concat (replicate 40 [0, 2, 4, 6, 8 :: int])) = sqrt 8"
  by (simp add: volatility_def even_last20 pvariance_def mean_def)

lemma even_strength:
  "strength (concat (replicate 40 [0, 2, 4, 6, 8])) vol =
     [(Even, 1.4 / (1 + vol / 10)), (Odd, 0 / (1 + vol / 10)),
      (Over3, 0.84 / (1 + vol / 10)), (Under6, 0.76 / (1 + vol / 10))]"
proof -
  define D where "D = 1 + vol / 10"
  have five: "sum_bool (\<lambda>d. d mod 2 = 0) [0, 2, 4, 6, 8 :: int] = 5"
    "sum_bool (\<lambda>d. d > 3) [0, 2, 4, 6, 8 :: int] = 3"
    "sum_bool (\<lambda>d. d < 6) [0, 2, 4, 6, 8 :: int] = 3"
    by (simp_all add: sum_bool_def)
  show ?thesis
    unfolding strength_def Let_def even_last5 sum_bool_repeat length_repeat five D_def [symmetric]
    by simp
qed

lemma max_key_even:
  assumes "0 < D"
  shows "max_key [(Even, 1.4 / D), (Odd, 0 / D), (Over3, 0.84 / D), (Under6, 0.76 / D)]
     = Inr (Even, 1.4 / D)"
proof -
  have mono: "a / D < b / D" if "a < b" for a b :: real
    using that assms by (rule divide_strict_right_mono)
  have "0 / D < 1.4 / D" "0.84 / D < 1.4 / D" "0.76 / D < 1.4 / D"
    by (rule mono, simp)+
  then show ?thesis by (simp add: max_key_def)
qed

lemma even_divisor_pos: "(0::real) < 1 + sqrt 8 / 10"
  by (simp add: add_pos_nonneg)

lemma analyze_even_buffer:
  "analyze_market market even_buffer = Inr (Some (Even, 1.4 / (1 + sqrt 8 / 10)))"
proof -
  have len: "30 \<le> length even_buffer" by (simp add: even_buffer_length)
  show ?thesis
    unfolding analyze_market_max_key [OF len even_buffer_digits] even_volatility even_strength
      max_key_even [OF even_divisor_pos]
    by simp
qed

text \<open>
  C8. On the ticks 0, 2, 4, 6, 8 repeated forty times the call returns Even. The
  dictionary it builds (the volatility of the last twenty digits is \<open>sqrt 8\<close>) gives
  Even the score \<open>1.4 / (1 + sqrt 8 / 10)\<close> and Odd the score 0, and the former is
  strictly larger.
\<close>

theorem analyze_market_all_even:
  "analyze_market market even_buffer = Inr (Some (Even, 1.4 / (1 + sqrt 8 / 10)))
   \<and> last_digits even_buffer = Inr (concat (replicate 40 [0, 2, 4, 6, 8]))
   \<and> pstdev (last_n 20 (concat (replicate 40 [0, 2, 4, 6, 8]))) = Inr (sqrt 8)
   \<and> strength (concat (replicate 40 [0, 2, 4, 6, 8])) (sqrt 8) =
       [(Even, 1.4 / (1 + sqrt 8 / 10)), (Odd, 0),
        (Over3, 0.84 / (1 + sqrt 8 / 10)), (Under6, 0.76 / (1 + sqrt 8 / 10))]
   \<and> (0::real) < 1.4 / (1 + sqrt 8 / 10)"
proof -
  have "(0::real) < 1.4 / (1 + sqrt 8 / 10)"
    using even_divisor_pos by simp
  moreover have "pstdev (last_n 20 (concat (replicate 40 [0, 2, 4, 6, 8]))) = Inr (sqrt 8)"
    using pstdev_last20 [of "concat (replicate 40 [0, 2, 4, 6, 8])"]
    by (simp add: length_repeat even_volatility)
  ultimately show ?thesis
    using even_strength [of "sqrt 8"] analyze_even_buffer [of market] even_buffer_digits
    by simp
qed

text \<open>
  C10. Whenever a buffer of at least 30 ticks yields a signal (its last digits could
  be read), the confidence is strictly positive and at most 1.4.
\<close>

theorem analyze_market_confidence_range:
  assumes "30 \<le> length ticks"
    and "analyze_market market ticks = Inr (Some (best, conf))"
  shows "0 < conf \<and> conf \<le> 1.4"
  using confidence_bounds [OF assms] by simp

theorem analyze_market_confidence_range_witness:
  "30 \<le> length even_buffer
   \<and> analyze_market ''R_50'' even_buffer = Inr (Some (Even, 1.4 / (1 + sqrt 8 / 10)))
   \<and> (0::real) < 1.4 / (1 + sqrt 8 / 10) \<and> 1.4 / (1 + sqrt 8 / 10) \<le> (1.4::real)"
proof -
  have len: "30 \<le> length even_buffer" by (simp add: even_buffer_length)
  have res: "analyze_market ''R_50'' even_buffer = Inr (Some (Even, 1.4 / (1 + sqrt 8 / 10)))"
    by (rule analyze_even_buffer)
  show ?thesis using len res analyze_market_confidence_range [OF len res] by blast
qed

text \<open>
  C4. A buffer with fewer than 30 samples gets no signal, whatever it holds: the
  length test comes before any tick is read, so even ticks whose text has no last
  digit do not raise.
\<close>

theorem analyze_market_short_buffer:
  "length ticks < 30 \<Longrightarrow> analyze_market market ticks = Inr None"
  by (simp add: analyze_market_def)

theorem analyze_market_short_buffer_witness:
  "length [JStr ''junk'', JNull, JNum ''7.5''] < 30
   \<and> analyze_market ''R_10'' [JStr ''junk'', JNull, JNum ''7.5''] = Inr None"
  using analyze_market_short_buffer [of "[JStr ''junk'', JNull, JNum ''7.5'']" "''R_10''"]
  by simp

section \<open>Properties of the tick buffers and the feed handler\<close>

lemma on_message_tick:
  assumes "tick_of message = Some (s, q)" and "mt s = Some b"
  shows "on_message mt message = (Returned, mt(s \<mapsto> push q b))"
  using assms
  by (auto simp: tick_of_def on_message_def
      split: frame.splits json.splits option.splits)

lemma on_message_unchanged:
  assumes "tick_of message = None \<or> (\<exists>s q. tick_of message = Some (s, q) \<and> mt s = None)"
  shows "snd (on_message mt message) = mt"
proof (cases message)
  case NotJson
  then show ?thesis by (simp add: on_message_def)
next
  case (Json data)
  show ?thesis
  proof (cases "has_tick data")
    case (Inl e)
    then show ?thesis using Json by (simp add: on_message_def)
  next
    case (Inr present)
    show ?thesis
    proof (cases present)
      case False
      then show ?thesis using Json Inr by (simp add: on_message_def)
    next
      case True
      show ?thesis
      proof (cases data)
        case (JObj kvs)
        then show ?thesis using assms Json Inr True
          by (auto simp: on_message_def tick_of_def
              split: option.splits json.splits sum.splits)
      qed (use Json Inr True in \<open>simp_all add: on_message_def\<close>)
    qed
  qed
qed

lemma on_message_outcome:
  "fst (on_message mt message) = Returned \<longleftrightarrow>
     (\<exists>data. message = Json data \<and> has_tick data = Inr False)
     \<or> (\<exists>s q b. tick_of message = Some (s, q) \<and> mt s = Some b)"
proof (cases message)
  case NotJson
  then show ?thesis by (simp add: on_message_def tick_of_def)
next
  case (Json data)
  show ?thesis
  proof (cases data)
    case (JObj kvs)
    then show ?thesis using Json
      by (auto simp: on_message_def tick_of_def
          split: option.splits json.splits sum.splits)
  qed (use Json in \<open>auto simp: on_message_def tick_of_def\<close>)
qed

lemma on_message_unconfigured:
  assumes "tick_of message = Some (s, q)" and "mt s = None"
  shows "on_message mt message = (Raised KeyError, mt)"
  using assms
  by (auto simp: tick_of_def on_message_def
      split: frame.splits json.splits option.splits)

lemma push_last_n:
  assumes "length b \<le> 200"
  shows "push q b = last_n 200 (b @ [q])"
proof (cases "length b = 200")
  case True
  then have "b \<noteq> []" by auto
  then have "tl (b @ [q]) = drop (Suc 0) (b @ [q])" by (cases b) simp_all
  then show ?thesis using True by (simp add: push_def last_n_def Let_def)
next
  case False
  with assms have "length b < 200" by simp
  then show ?thesis by (simp add: push_def last_n_def Let_def)
qed

lemma push_at_capacity: "length b = 200 \<Longrightarrow> push q b = tl b @ [q]"
  by (cases b) (auto simp: push_def Let_def)

lemma length_push: "length b \<le> 200 \<Longrightarrow> length (push q b) \<le> 200"
  by (auto simp: push_def Let_def)

lemma last_n_snoc:
  assumes "0 < n"
  shows "last_n n (last_n n xs @ [q]) = last_n n (xs @ [q])"
proof (cases "n \<le> length xs")
  case True
  have len: "length (last_n n xs) = n" using True by (simp add: length_last_n)
  have "last_n n (last_n n xs @ [q]) = drop (Suc 0) (last_n n xs @ [q])"
    by (simp add: last_n_def [of n "last_n n xs @ [q]"] len)
  also have "\<dots> = drop (Suc 0) (last_n n xs) @ [q]"
    using len assms by simp
  also have "\<dots> = drop (Suc (length xs - n)) xs @ [q]"
    by (simp add: last_n_def)
  also have "\<dots> = last_n n (xs @ [q])"
    using True assms by (simp add: last_n_def Suc_diff_le)
  finally show ?thesis .
next
  case False
  then show ?thesis by (simp add: last_n_def)
qed

lemma feed_other:
  assumes "\<forall>fr\<in>set frs. \<exists>s q. tick_of fr = Some (s, q) \<and> s \<in> dom mt"
    and "mt m = Some (last_n 200 acc)"
  shows "feed mt frs m = Some (last_n 200 (acc @ quotes_for m frs))"
  using assms
proof (induction frs arbitrary: mt acc)
  case Nil
  then show ?case by simp
next
  case (Cons fr frs)
  from Cons.prems(1) obtain s q b where t: "tick_of fr = Some (s, q)" and b: "mt s = Some b"
    by auto
  let ?mt' = "mt(s \<mapsto> push q b)"
  have step: "on_message mt fr = (Returned, ?mt')" using t b by (rule on_message_tick)
  have dom: "dom ?mt' = dom mt" using b by auto
  have rest: "\<forall>fr\<in>set frs. \<exists>s q. tick_of fr = Some (s, q) \<and> s \<in> dom ?mt'"
    using Cons.prems(1) unfolding dom by simp
  have unfold: "feed mt (fr # frs) m = feed ?mt' frs m" by (simp add: step)
  show ?case
  proof (cases "s = m")
    case True
    then have "b = last_n 200 acc" using b Cons.prems(2) by simp
    then have "push q b = last_n 200 (acc @ [q])"
      by (simp add: push_last_n length_last_n last_n_snoc)
    then have "?mt' m = Some (last_n 200 (acc @ [q]))" using True by simp
    from Cons.IH [OF rest this]
    have "feed ?mt' frs m = Some (last_n 200 ((acc @ [q]) @ quotes_for m frs))" .
    moreover have "quotes_for m (fr # frs) = q # quotes_for m frs" using t True by simp
    ultimately show ?thesis unfolding unfold by simp
  next
    case False
    then have "?mt' m = Some (last_n 200 acc)" using Cons.prems(2) by simp
    from Cons.IH [OF rest this]
    have "feed ?mt' frs m = Some (last_n 200 (acc @ quotes_for m frs))" .
    moreover have "quotes_for m (fr # frs) = quotes_for m frs" using t False by simp
    ultimately show ?thesis unfolding unfold by simp
  qed
qed

lemma initial_ticks_dom: "dom initial_ticks = set MARKETS"
  by (auto simp: initial_ticks_def MARKETS_def split: if_splits)

lemma initial_ticks_empty: "m \<in> set MARKETS \<Longrightarrow> initial_ticks m = Some []"
  by (auto simp: initial_ticks_def MARKETS_def)

text \<open>
  C3. Starting from the empty buffers and handling any sequence of tick events for
  configured instruments, the buffer of every instrument holds exactly the last
  \<open>min n 200\<close> quotes received for it, in arrival order, so its length never exceeds
  200. An append to a buffer of 200 drops exactly its oldest element; below 200
  nothing is dropped. The statement holds for every sequence, hence after each event.
\<close>

theorem tick_buffer_fifo:
  assumes "\<forall>fr\<in>set frs. \<exists>s q. tick_of fr = Some (s, q) \<and> s \<in> set MARKETS"
    and "m \<in> set MARKETS"
  shows "feed initial_ticks frs m = Some (last_n 200 (quotes_for m frs))
         \<and> length (last_n 200 (quotes_for m frs)) = min (length (quotes_for m frs)) 200
         \<and> length (last_n 200 (quotes_for m frs)) \<le> 200
         \<and> (\<forall>q (b :: json list). length b = 200 \<longrightarrow> push q b = tl b @ [q])
         \<and> (\<forall>q (b :: json list). length b < 200 \<longrightarrow> push q b = b @ [q])"
proof -
  have "initial_ticks m = Some (last_n 200 [])"
    using assms(2) by (simp add: initial_ticks_empty last_n_def)
  from feed_other [where mt = initial_ticks and acc = "[]" and m = m and frs = frs] this assms(1)
  have "feed initial_ticks frs m = Some (last_n 200 (quotes_for m frs))"
    by (simp add: initial_ticks_dom)
  moreover have "\<forall>q (b :: json list). length b = 200 \<longrightarrow> push q b = tl b @ [q]"
    by (simp add: push_at_capacity)
  moreover have "\<forall>q (b :: json list). length b < 200 \<longrightarrow> push q b = b @ [q]"
    by (simp add: push_def Let_def)
  moreover have "length (last_n 200 (quotes_for m frs)) = min (length (quotes_for m frs)) 200"
    by (simp add: length_last_n min.commute)
  ultimately show ?thesis by simp
qed

lemma tick_of_tick_frame: "tick_of (tick_frame s q) = Some (s, q)"
  by (simp add: tick_of_def tick_frame_def)

text \<open>
  Three events, two of them for R_10: its buffer holds those two quotes in order.
\<close>

theorem tick_buffer_fifo_witness:
  "tick_of (tick_frame ''R_10'' (JNum ''1.5'')) = Some (''R_10'', JNum ''1.5'')
   \<and> tick_of (tick_frame ''R_25'' (JNum ''2'')) = Some (''R_25'', JNum ''2'')
   \<and> tick_of (tick_frame ''R_10'' (JNum ''3'')) = Some (''R_10'', JNum ''3'')
   \<and> ''R_10'' \<in> set MARKETS \<and> ''R_25'' \<in> set MARKETS
   \<and> feed initial_ticks
        [tick_frame ''R_10'' (JNum ''1.5''), tick_frame ''R_25'' (JNum ''2''),
         tick_frame ''R_10'' (JNum ''3'')] ''R_10''
      = Some [JNum ''1.5'', JNum ''3'']"
proof -
  let ?frs = "[tick_frame ''R_10'' (JNum ''1.5''), tick_frame ''R_25'' (JNum ''2''),
               tick_frame ''R_10'' (JNum ''3'')]"
  have h1: "\<forall>fr\<in>set ?frs. \<exists>s q. tick_of fr = Some (s, q) \<and> s \<in> set MARKETS"
    by (simp add: tick_of_tick_frame MARKETS_def)
  have h2: "''R_10'' \<in> set MARKETS" by (simp add: MARKETS_def)
  have "feed initial_ticks ?frs ''R_10'' = Some (last_n 200 (quotes_for ''R_10'' ?frs))"
    using tick_buffer_fifo [OF h1 h2] by blast
  then have "feed initial_ticks ?frs ''R_10'' = Some [JNum ''1.5'', JNum ''3'']"
    by (simp add: tick_of_tick_frame last_n_def)
  then show ?thesis by (simp add: tick_of_tick_frame MARKETS_def)
qed

text \<open>
  C7, as amended. Take an event that is malformed or names an instrument without a
  buffer. If the handler can read a string symbol with a buffer and a quote from it,
  the event is malformed only by a quote that is not a number, and the handler does
  not drop it: the quote is appended to that buffer. In every other case no buffer
  changes; the event is dropped silently exactly when it parses to an object, array
  or string without a \<open>tick\<close> member, text that is not JSON raises JSONDecodeError,
  and a tick for an instrument without a buffer raises KeyError out of the handler.
\<close>

theorem on_message_rejected_event:
  assumes "\<not> well_formed_tick message \<or> (\<exists>s q. tick_of message = Some (s, q) \<and> mt s = None)"
  shows "(\<forall>s q b. tick_of message = Some (s, q) \<longrightarrow> mt s = Some b \<longrightarrow>
            (\<forall>n. q \<noteq> JNum n) \<and> on_message mt message = (Returned, mt(s \<mapsto> push q b)))
    \<and> ((\<forall>s q. tick_of message = Some (s, q) \<longrightarrow> mt s = None) \<longrightarrow>
          snd (on_message mt message) = mt
          \<and> (fst (on_message mt message) = Returned
               \<longleftrightarrow> (\<exists>data. message = Json data \<and> has_tick data = Inr False)))
    \<and> (message = NotJson \<longrightarrow> on_message mt message = (Raised JSONDecodeError, mt))
    \<and> (\<forall>s q. tick_of message = Some (s, q) \<longrightarrow> mt s = None \<longrightarrow>
          on_message mt message = (Raised KeyError, mt))"
proof -
  have appended: "(\<forall>n. q \<noteq> JNum n) \<and> on_message mt message = (Returned, mt(s \<mapsto> push q b))"
    if t: "tick_of message = Some (s, q)" and b: "mt s = Some b" for s q b
  proof -
    from assms t b have "\<not> well_formed_tick message" by auto
    then have "\<forall>n. q \<noteq> JNum n" using t by (auto simp: well_formed_tick_def)
    moreover have "on_message mt message = (Returned, mt(s \<mapsto> push q b))"
      using t b by (rule on_message_tick)
    ultimately show ?thesis by simp
  qed
  have rejected: "snd (on_message mt message) = mt
          \<and> (fst (on_message mt message) = Returned
               \<longleftrightarrow> (\<exists>data. message = Json data \<and> has_tick data = Inr False))"
    if none: "\<forall>s q. tick_of message = Some (s, q) \<longrightarrow> mt s = None"
  proof -
    from none have h: "tick_of message = None
        \<or> (\<exists>s q. tick_of message = Some (s, q) \<and> mt s = None)"
      by (cases "tick_of message") auto
    have same: "snd (on_message mt message) = mt" using h by (rule on_message_unchanged)
    have "\<not> (\<exists>s q b. tick_of message = Some (s, q) \<and> mt s = Some b)"
      using none by auto
    then have "fst (on_message mt message) = Returned
         \<longleftrightarrow> (\<exists>data. message = Json data \<and> has_tick data = Inr False)"
      using on_message_outcome [of mt message] by blast
    with same show ?thesis by simp
  qed
  have unparsed: "message = NotJson \<longrightarrow> on_message mt message = (Raised JSONDecodeError, mt)"
    by (simp add: on_message_def)
  have unknown: "on_message mt message = (Raised KeyError, mt)"
    if "tick_of message = Some (s, q)" "mt s = None" for s q
    using that by (rule on_message_unconfigured)
  show ?thesis
  proof (intro conjI)
    show "\<forall>s q b. tick_of message = Some (s, q) \<longrightarrow> mt s = Some b \<longrightarrow>
            (\<forall>n. q \<noteq> JNum n) \<and> on_message mt message = (Returned, mt(s \<mapsto> push q b))"
      using appended by blast
    show "(\<forall>s q. tick_of message = Some (s, q) \<longrightarrow> mt s = None) \<longrightarrow>
          snd (on_message mt message) = mt
          \<and> (fst (on_message mt message) = Returned
               \<longleftrightarrow> (\<exists>data. message = Json data \<and> has_tick data = Inr False))"
      using rejected by blast
    show "message = NotJson \<longrightarrow> on_message mt message = (Raised JSONDecodeError, mt)"
      by (rule unparsed)
    show "\<forall>s q. tick_of message = Some (s, q) \<longrightarrow> mt s = None \<longrightarrow>
          on_message mt message = (Raised KeyError, mt)"
      using unknown by blast
  qed
qed

text \<open>
  A tick for R_25 whose quote is a string is malformed, and is appended all the same.
\<close>

theorem on_message_rejected_event_witness:
  "tick_of (tick_frame ''R_25'' (JStr ''abc'')) = Some (''R_25'', JStr ''abc'')
   \<and> initial_ticks ''R_25'' = Some []
   \<and> on_message initial_ticks (tick_frame ''R_25'' (JStr ''abc''))
       = (Returned, initial_ticks(''R_25'' \<mapsto> [JStr ''abc'']))"
proof -
  let ?msg = "tick_frame ''R_25'' (JStr ''abc'')"
  have t: "tick_of ?msg = Some (''R_25'', JStr ''abc'')" by (rule tick_of_tick_frame)
  have b: "initial_ticks ''R_25'' = Some []"
    by (simp add: initial_ticks_empty MARKETS_def)
  have h: "\<not> well_formed_tick ?msg
      \<or> (\<exists>s q. tick_of ?msg = Some (s, q) \<and> initial_ticks s = None)"
    by (simp add: well_formed_tick_def t)
  from on_message_rejected_event [OF h] t b
  have "on_message initial_ticks ?msg = (Returned, initial_ticks(''R_25'' \<mapsto> push (JStr ''abc'') []))"
    by blast
  then show ?thesis using t b by (simp add: push_def)
qed

text \<open>
  C7 as stated fails on both counts: a tick for the unconfigured instrument R_999
  raises KeyError out of the handler and text that is not JSON raises
  JSONDecodeError, and a tick for R_10 whose quote is \<open>null\<close> modifies the buffer.
\<close>

theorem on_message_unconfigured_raises:
  "tick_of (tick_frame ''R_999'' (JNum ''1.5'')) = Some (''R_999'', JNum ''1.5'')
   \<and> ''R_999'' \<notin> set MARKETS
   \<and> on_message initial_ticks (tick_frame ''R_999'' (JNum ''1.5''))
       = (Raised KeyError, initial_ticks)
   \<and> on_message initial_ticks NotJson = (Raised JSONDecodeError, initial_ticks)
   \<and> ''R_10'' \<in> set MARKETS
   \<and> on_message initial_ticks (tick_frame ''R_10'' JNull)
       = (Returned, initial_ticks(''R_10'' \<mapsto> [JNull]))"
proof -
  have "initial_ticks ''R_999'' = None"
    by (simp add: initial_ticks_def MARKETS_def)
  then have "on_message initial_ticks (tick_frame ''R_999'' (JNum ''1.5''))
       = (Raised KeyError, initial_ticks)"
    using tick_of_tick_frame by (rule on_message_unconfigured [rotated])
  moreover have "initial_ticks ''R_10'' = Some []"
    by (simp add: initial_ticks_empty MARKETS_def)
  then have "on_message initial_ticks (tick_frame ''R_10'' JNull)
       = (Returned, initial_ticks(''R_10'' \<mapsto> push JNull []))"
    using tick_of_tick_frame by (rule on_message_tick [rotated])
  ultimately show ?thesis
    by (simp add: tick_of_tick_frame MARKETS_def on_message_def push_def)
qed

section \<open>Quotes without a last digit\<close>

lemma last_digits_replicate_raises:
  "last_digit t = Inl e \<Longrightarrow> 0 < n \<Longrightarrow> last_digits (replicate n t) = Inl e"
  by (cases n) simp_all

lemma analyze_inf_buffer: "analyze_market market inf_buffer = Inl ValueError"
proof -
  have "last_digit (JNum ''inf'') = Inl ValueError"
    by (simp add: last_digit_def int_of_char_def)
  then have "last_digits inf_buffer = Inl ValueError"
    unfolding inf_buffer_def by (rule last_digits_replicate_raises) simp
  then show ?thesis by (simp add: analyze_market_def inf_buffer_def)
qed

lemma quotes_for_replicate:
  "quotes_for m (replicate n (tick_frame s q)) = (if s = m then replicate n q else [])"
  by (induction n) (auto simp: tick_of_tick_frame)

lemma feed_inf_frames:
  assumes "m \<in> set MARKETS"
  shows "feed initial_ticks inf_frames m = Some (if m = ''R_10'' then inf_buffer else [])"
proof -
  have frames: "\<forall>fr\<in>set inf_frames. \<exists>s q. tick_of fr = Some (s, q) \<and> s \<in> dom initial_ticks"
    by (auto simp: inf_frames_def tick_of_tick_frame initial_ticks_dom MARKETS_def)
  have start: "initial_ticks m = Some (last_n 200 [])"
    using assms by (simp add: initial_ticks_empty last_n_def)
  have "feed initial_ticks inf_frames m = Some (last_n 200 ([] @ quotes_for m inf_frames))"
    using frames start by (rule feed_other)
  then show ?thesis
    by (auto simp: inf_frames_def inf_buffer_def quotes_for_replicate last_n_def)
qed

text \<open>
  C1 as stated fails: the handler stores thirty infinite quotes for R_10, and on that
  buffer of thirty ticks the scorer raises ValueError instead of returning scores.
\<close>

theorem analyze_market_unreadable_ticks:
  "feed initial_ticks inf_frames ''R_10'' = Some inf_buffer
   \<and> length inf_buffer = 30
   \<and> last_digits inf_buffer = Inl ValueError
   \<and> analyze_market ''R_10'' inf_buffer = Inl ValueError"
proof -
  have "last_digit (JNum ''inf'') = Inl ValueError"
    by (simp add: last_digit_def int_of_char_def)
  then have "last_digits inf_buffer = Inl ValueError"
    unfolding inf_buffer_def by (rule last_digits_replicate_raises) simp
  then show ?thesis
    using feed_inf_frames [of "''R_10''"] analyze_inf_buffer [of "''R_10''"]
    by (simp add: MARKETS_def inf_buffer_def)
qed

text \<open>
  C5 as stated fails: after those thirty events R_10 is the only instrument with at
  least 30 samples, and the selection raises ValueError instead of selecting it.
\<close>

theorem select_market_unreadable_ticks:
  "feed initial_ticks inf_frames ''R_10'' = Some inf_buffer \<and> length inf_buffer = 30
   \<and> feed initial_ticks inf_frames ''R_25'' = Some []
   \<and> feed initial_ticks inf_frames ''R_50'' = Some []
   \<and> feed initial_ticks inf_frames ''R_75'' = Some []
   \<and> feed initial_ticks inf_frames ''R_100'' = Some []
   \<and> select_market (feed initial_ticks inf_frames) = Inl ValueError"
proof -
  have r10: "feed initial_ticks inf_frames ''R_10'' = Some inf_buffer"
    using feed_inf_frames [of "''R_10''"] by (simp add: MARKETS_def)
  have len: "length inf_buffer = 30" by (simp add: inf_buffer_def)
  have "select_market (feed initial_ticks inf_frames) = Inl ValueError"
    by (simp add: select_market_def MARKETS_def r10 len analyze_inf_buffer)
  moreover have "feed initial_ticks inf_frames ''R_25'' = Some []"
    "feed initial_ticks inf_frames ''R_50'' = Some []"
    "feed initial_ticks inf_frames ''R_75'' = Some []"
    "feed initial_ticks inf_frames ''R_100'' = Some []"
    using feed_inf_frames [of "''R_25''"] feed_inf_frames [of "''R_50''"]
      feed_inf_frames [of "''R_75''"] feed_inf_frames [of "''R_100''"]
    by (simp_all add: MARKETS_def)
  ultimately show ?thesis using r10 len by simp
qed

section \<open>Properties of the market selection\<close>

lemma analyze_market_Some_length:
  "analyze_market m b = Inr (Some r) \<Longrightarrow> 30 \<le> length b"
  by (auto simp: analyze_market_def split: if_splits)

lemma analyze_market_long_Some:
  "30 \<le> length b \<Longrightarrow> analyze_market m b = Inr r \<Longrightarrow> \<exists>s c. r = Some (s, c)"
  by (auto simp: analyze_market_def split: sum.splits prod.splits)

lemma select_loop_props:
  assumes "\<forall>m\<in>set ms. \<exists>b r. mt m = Some b \<and> analyze_market m b = Inr r"
  shows "\<exists>rm rs rc. select_loop mt ms (bm, bs, bc) = Inr (rm, rs, rc) \<and> bc \<le> rc
     \<and> (\<forall>m\<in>set ms. \<forall>b s c. mt m = Some b \<longrightarrow> analyze_market m b = Inr (Some (s, c)) \<longrightarrow> c \<le> rc)
     \<and> ((rm, rs, rc) = (bm, bs, bc)
        \<or> (\<exists>m\<in>set ms. \<exists>b s. rm = Some m \<and> rs = Some s \<and> mt m = Some b \<and> 20 < length b
              \<and> bc < rc \<and> analyze_market m b = Inr (Some (s, rc))))"
  using assms
proof (induction ms arbitrary: bm bs bc)
  case Nil
  then show ?case by simp
next
  case (Cons m ms)
  from Cons.prems obtain b r where b: "mt m = Some b" and r: "analyze_market m b = Inr r"
    by auto
  have rest: "\<forall>m\<in>set ms. \<exists>b r. mt m = Some b \<and> analyze_market m b = Inr r"
    using Cons.prems by simp
  show ?case
  proof (cases "20 < length b \<and> (\<exists>s c. r = Some (s, c) \<and> bc < c)")
    case True
    then obtain s c where sc: "r = Some (s, c)" and lt: "bc < c" and len: "20 < length b"
      by auto
    have step: "select_loop mt (m # ms) (bm, bs, bc) = select_loop mt ms (Some m, Some s, c)"
      using b r sc lt len by simp
    from Cons.IH [OF rest, of "Some m" "Some s" c]
    obtain rm rs rc where res: "select_loop mt ms (Some m, Some s, c) = Inr (rm, rs, rc)"
      and ge: "c \<le> rc"
      and mx: "\<forall>m\<in>set ms. \<forall>b s c. mt m = Some b \<longrightarrow> analyze_market m b = Inr (Some (s, c)) \<longrightarrow> c \<le> rc"
      and src: "(rm, rs, rc) = (Some m, Some s, c)
        \<or> (\<exists>m'\<in>set ms. \<exists>b s'. rm = Some m' \<and> rs = Some s' \<and> mt m' = Some b \<and> 20 < length b
              \<and> c < rc \<and> analyze_market m' b = Inr (Some (s', rc)))"
      by blast
    have "bc \<le> rc" using lt ge by simp
    moreover have "\<forall>m'\<in>set (m # ms). \<forall>b s c. mt m' = Some b \<longrightarrow>
        analyze_market m' b = Inr (Some (s, c)) \<longrightarrow> c \<le> rc"
      using mx b r sc ge by auto
    moreover have "(rm, rs, rc) = (bm, bs, bc)
        \<or> (\<exists>m'\<in>set (m # ms). \<exists>b s'. rm = Some m' \<and> rs = Some s' \<and> mt m' = Some b
              \<and> 20 < length b \<and> bc < rc \<and> analyze_market m' b = Inr (Some (s', rc)))"
      using src b r sc lt len by auto
    ultimately show ?thesis unfolding step res by blast
  next
    case False
    have step: "select_loop mt (m # ms) (bm, bs, bc) = select_loop mt ms (bm, bs, bc)"
      using b r False by (cases r) auto
    from Cons.IH [OF rest, of bm bs bc]
    obtain rm rs rc where res: "select_loop mt ms (bm, bs, bc) = Inr (rm, rs, rc)"
      and ge: "bc \<le> rc"
      and mx: "\<forall>m\<in>set ms. \<forall>b s c. mt m = Some b \<longrightarrow> analyze_market m b = Inr (Some (s, c)) \<longrightarrow> c \<le> rc"
      and src: "(rm, rs, rc) = (bm, bs, bc)
        \<or> (\<exists>m'\<in>set ms. \<exists>b s'. rm = Some m' \<and> rs = Some s' \<and> mt m' = Some b \<and> 20 < length b
              \<and> bc < rc \<and> analyze_market m' b = Inr (Some (s', rc)))"
      by blast
    have "c \<le> rc" if "analyze_market m b = Inr (Some (s, c))" for s c
    proof -
      have "30 \<le> length b" using that by (rule analyze_market_Some_length)
      with False r that have "\<not> bc < c" by auto
      with ge show ?thesis by simp
    qed
    then have "\<forall>m'\<in>set (m # ms). \<forall>b s c. mt m' = Some b \<longrightarrow>
        analyze_market m' b = Inr (Some (s, c)) \<longrightarrow> c \<le> rc"
      using mx b by auto
    moreover have "(rm, rs, rc) = (bm, bs, bc)
        \<or> (\<exists>m'\<in>set (m # ms). \<exists>b s'. rm = Some m' \<and> rs = Some s' \<and> mt m' = Some b
              \<and> 20 < length b \<and> bc < rc \<and> analyze_market m' b = Inr (Some (s', rc)))"
      using src by auto
    ultimately show ?thesis unfolding step res using ge by blast
  qed
qed

lemma select_loop_single:
  assumes "mt m0 = Some b0" and "analyze_market m0 b0 = Inr (Some (s0, c0))" and "0 < c0"
    and "\<forall>m\<in>set ms. m \<noteq> m0 \<longrightarrow> (\<exists>b. mt m = Some b \<and> length b < 30)"
    and "acc = (None, None, 0) \<or> acc = (Some m0, Some s0, c0)"
  shows "select_loop mt ms acc = Inr (if m0 \<in> set ms then (Some m0, Some s0, c0) else acc)"
  using assms(4,5)
proof (induction ms arbitrary: acc)
  case Nil
  then show ?case by simp
next
  case (Cons m ms)
  have rest: "\<forall>m\<in>set ms. m \<noteq> m0 \<longrightarrow> (\<exists>b. mt m = Some b \<and> length b < 30)"
    using Cons.prems(1) by simp
  have len0: "30 \<le> length b0" using assms(2) by (rule analyze_market_Some_length)
  show ?case
  proof (cases "m = m0")
    case True
    have "select_loop mt (m # ms) acc = select_loop mt ms (Some m0, Some s0, c0)"
      using Cons.prems(2) True assms(1,2,3) len0 by auto
    also have "\<dots> = Inr (if m0 \<in> set ms then (Some m0, Some s0, c0) else (Some m0, Some s0, c0))"
      by (rule Cons.IH [OF rest]) simp
    finally show ?thesis using True by simp
  next
    case False
    then obtain b where b: "mt m = Some b" and short: "length b < 30"
      using Cons.prems(1) by auto
    have none: "analyze_market m b = Inr None" using short by (simp add: analyze_market_def)
    obtain am as ac where acc: "acc = (am, as, ac)" by (cases acc)
    have "select_loop mt (m # ms) acc = select_loop mt ms acc"
      unfolding acc using b none by simp
    also have "\<dots> = Inr (if m0 \<in> set ms then (Some m0, Some s0, c0) else acc)"
      by (rule Cons.IH [OF rest Cons.prems(2)])
    finally show ?thesis using False by simp
  qed
qed

text \<open>
  C5, as amended. Provided every configured instrument has a buffer and no scoring
  raises, the selection returns; an instrument with at most 20 samples is never selected; the
  selected instrument is a configured one whose own score is the confidence returned;
  that confidence is at least the confidence of every instrument that was scored,
  and some instrument is selected whenever one was scored; and an instrument with at
  least 30 samples is selected whenever all the others have fewer than 30.
\<close>

theorem select_market_best:
  assumes "\<forall>m\<in>set MARKETS. \<exists>b r. mt m = Some b \<and> analyze_market m b = Inr r"
  shows "\<exists>bm bs bc. select_market mt = Inr (bm, bs, bc)
    \<and> (\<forall>m\<in>set MARKETS. \<forall>b. mt m = Some b \<longrightarrow> length b \<le> 20 \<longrightarrow> bm \<noteq> Some m)
    \<and> (\<forall>m. bm = Some m \<longrightarrow> m \<in> set MARKETS
           \<and> (\<exists>b s. bs = Some s \<and> mt m = Some b \<and> analyze_market m b = Inr (Some (s, bc))))
    \<and> (\<forall>m\<in>set MARKETS. \<forall>b s c. mt m = Some b \<longrightarrow> analyze_market m b = Inr (Some (s, c))
           \<longrightarrow> c \<le> bc \<and> bm \<noteq> None)
    \<and> (\<forall>m\<in>set MARKETS. \<forall>b. mt m = Some b \<longrightarrow> 30 \<le> length b
           \<longrightarrow> (\<forall>m'\<in>set MARKETS. m' \<noteq> m \<longrightarrow> (\<exists>b'. mt m' = Some b' \<and> length b' < 30))
           \<longrightarrow> bm = Some m)"
proof -
  from select_loop_props [OF assms, of None None 0]
  obtain bm bs bc where res: "select_loop mt MARKETS (None, None, 0) = Inr (bm, bs, bc)"
    and mx: "\<forall>m\<in>set MARKETS. \<forall>b s c. mt m = Some b \<longrightarrow>
        analyze_market m b = Inr (Some (s, c)) \<longrightarrow> c \<le> bc"
    and src: "(bm, bs, bc) = (None, None, 0)
        \<or> (\<exists>m\<in>set MARKETS. \<exists>b s. bm = Some m \<and> bs = Some s \<and> mt m = Some b \<and> 20 < length b
              \<and> 0 < bc \<and> analyze_market m b = Inr (Some (s, bc)))"
    by blast
  have skip: "bm \<noteq> Some m" if "mt m = Some b" "length b \<le> 20" for m b
    using src that by auto
  have sel: "m \<in> set MARKETS
      \<and> (\<exists>b s. bs = Some s \<and> mt m = Some b \<and> analyze_market m b = Inr (Some (s, bc)))"
    if "bm = Some m" for m
    using src that by auto
  have best: "c \<le> bc \<and> bm \<noteq> None"
    if "m \<in> set MARKETS" "mt m = Some b" "analyze_market m b = Inr (Some (s, c))" for m b s c
  proof -
    have le: "c \<le> bc" using mx that by blast
    have "30 \<le> length b" using that(3) by (rule analyze_market_Some_length)
    then have "0 < c" using that(3) by (rule confidence_bounds(1))
    with le have "bc \<noteq> 0" by simp
    with src le show ?thesis by auto
  qed
  have single: "bm = Some m"
    if m: "m \<in> set MARKETS" and b: "mt m = Some b" and long: "30 \<le> length b"
      and others: "\<forall>m'\<in>set MARKETS. m' \<noteq> m \<longrightarrow> (\<exists>b'. mt m' = Some b' \<and> length b' < 30)"
    for m b
  proof -
    from assms m b obtain r where r: "analyze_market m b = Inr r" by auto
    from analyze_market_long_Some [OF long r] obtain s c where sc: "r = Some (s, c)" by auto
    have an: "analyze_market m b = Inr (Some (s, c))" using r sc by simp
    have pos: "0 < c" using long an by (rule confidence_bounds(1))
    have "select_loop mt MARKETS (None, None, 0)
        = Inr (if m \<in> set MARKETS then (Some m, Some s, c) else (None, None, 0))"
      by (rule select_loop_single [OF b an pos others]) simp
    with res m show ?thesis by simp
  qed
  show ?thesis
  proof (intro exI conjI)
    show "select_market mt = Inr (bm, bs, bc)" by (simp add: select_market_def res)
    show "\<forall>m\<in>set MARKETS. \<forall>b. mt m = Some b \<longrightarrow> length b \<le> 20 \<longrightarrow> bm \<noteq> Some m"
      using skip by blast
    show "\<forall>m. bm = Some m \<longrightarrow> m \<in> set MARKETS
           \<and> (\<exists>b s. bs = Some s \<and> mt m = Some b \<and> analyze_market m b = Inr (Some (s, bc)))"
      using sel by blast
    show "\<forall>m\<in>set MARKETS. \<forall>b s c. mt m = Some b \<longrightarrow> analyze_market m b = Inr (Some (s, c))
           \<longrightarrow> c \<le> bc \<and> bm \<noteq> None"
      using best by blast
    show "\<forall>m\<in>set MARKETS. \<forall>b. mt m = Some b \<longrightarrow> 30 \<le> length b
           \<longrightarrow> (\<forall>m'\<in>set MARKETS. m' \<noteq> m \<longrightarrow> (\<exists>b'. mt m' = Some b' \<and> length b' < 30))
           \<longrightarrow> bm = Some m"
      using single by blast
  qed
qed

lemma even_ticks_R10: "even_ticks ''R_10'' = Some even_buffer"
  by (simp add: even_ticks_def)

lemma even_ticks_others:
  "m \<in> set MARKETS \<Longrightarrow> m \<noteq> ''R_10'' \<Longrightarrow> even_ticks m = Some []"
  by (auto simp: even_ticks_def initial_ticks_def MARKETS_def)

lemma even_confidence_pos: "(0::real) < 1.4 / (1 + sqrt 8 / 10)"
  using even_divisor_pos by simp

lemma select_even_ticks:
  "select_market even_ticks = Inr (Some ''R_10'', Some Even, 1.4 / (1 + sqrt 8 / 10))"
proof -
  have others: "\<forall>m\<in>set MARKETS. m \<noteq> ''R_10'' \<longrightarrow> (\<exists>b. even_ticks m = Some b \<and> length b < 30)"
    using even_ticks_others by auto
  have "select_loop even_ticks MARKETS (None, None, 0)
      = Inr (if ''R_10'' \<in> set MARKETS then (Some ''R_10'', Some Even, 1.4 / (1 + sqrt 8 / 10))
             else (None, None, 0))"
    by (rule select_loop_single [OF even_ticks_R10 analyze_even_buffer even_confidence_pos others])
      simp
  then show ?thesis by (simp add: select_market_def MARKETS_def)
qed

lemma last_even_buffer: "even_buffer \<noteq> [] \<and> last even_buffer = JNum ''8''"
proof -
  have "concat (replicate (39 + 1) even_block)
      = concat (replicate 39 even_block) @ concat (replicate 1 even_block)"
    by (rule repeat_split)
  then have eq: "even_buffer = concat (replicate 39 even_block) @ even_block"
    by (simp add: even_buffer_def)
  show ?thesis unfolding eq by (simp add: even_block_def)
qed

lemma entry_digit_even: "entry_digit even_ticks ''R_10'' = Inr (Some 8)"
  by (simp add: entry_digit_def even_ticks_R10 last_even_buffer last_digit_def int_of_char_def)

lemma market_name_R10: "market_name ''R_10'' = ''Volatility 10 Index''"
  by (simp add: market_name_def MARKET_NAMES_def)

lemma even_ticks_scored:
  "\<forall>m\<in>set MARKETS. \<exists>b r. even_ticks m = Some b \<and> analyze_market m b = Inr r"
proof
  fix m assume m: "m \<in> set MARKETS"
  show "\<exists>b r. even_ticks m = Some b \<and> analyze_market m b = Inr r"
  proof (cases "m = ''R_10''")
    case True
    then show ?thesis using even_ticks_R10 analyze_even_buffer by blast
  next
    case False
    then have "even_ticks m = Some []" using m by (rule even_ticks_others [rotated])
    moreover have "analyze_market m [] = Inr None" by (simp add: analyze_market_def)
    ultimately show ?thesis by blast
  qed
qed

text \<open>
  With the all-even buffer for R_10 and empty buffers elsewhere, R_10 is selected.
\<close>

theorem select_market_best_witness:
  "even_ticks ''R_10'' = Some even_buffer \<and> length even_buffer = 200
   \<and> even_ticks ''R_25'' = Some [] \<and> even_ticks ''R_50'' = Some []
   \<and> even_ticks ''R_75'' = Some [] \<and> even_ticks ''R_100'' = Some []
   \<and> select_market even_ticks = Inr (Some ''R_10'', Some Even, 1.4 / (1 + sqrt 8 / 10))"
proof -
  have "\<exists>bm bs bc. select_market even_ticks = Inr (bm, bs, bc)
    \<and> (\<forall>m. bm = Some m \<longrightarrow> m \<in> set MARKETS
           \<and> (\<exists>b s. bs = Some s \<and> even_ticks m = Some b \<and> analyze_market m b = Inr (Some (s, bc))))
    \<and> (\<forall>m\<in>set MARKETS. \<forall>b. even_ticks m = Some b \<longrightarrow> 30 \<le> length b
           \<longrightarrow> (\<forall>m'\<in>set MARKETS. m' \<noteq> m \<longrightarrow> (\<exists>b'. even_ticks m' = Some b' \<and> length b' < 30))
           \<longrightarrow> bm = Some m)"
    using select_market_best [OF even_ticks_scored] by (elim exE conjE, intro exI conjI)
  then obtain bm bs bc where res: "select_market even_ticks = Inr (bm, bs, bc)"
    and sel: "\<forall>m. bm = Some m \<longrightarrow> m \<in> set MARKETS
           \<and> (\<exists>b s. bs = Some s \<and> even_ticks m = Some b \<and> analyze_market m b = Inr (Some (s, bc)))"
    and single: "\<forall>m\<in>set MARKETS. \<forall>b. even_ticks m = Some b \<longrightarrow> 30 \<le> length b
           \<longrightarrow> (\<forall>m'\<in>set MARKETS. m' \<noteq> m \<longrightarrow> (\<exists>b'. even_ticks m' = Some b' \<and> length b' < 30))
           \<longrightarrow> bm = Some m"
    by (elim exE conjE) (rule that)
  have "''R_10'' \<in> set MARKETS" by (simp add: MARKETS_def)
  moreover have "30 \<le> length even_buffer" by (simp add: even_buffer_length)
  moreover have "\<forall>m'\<in>set MARKETS. m' \<noteq> ''R_10'' \<longrightarrow> (\<exists>b'. even_ticks m' = Some b' \<and> length b' < 30)"
    using even_ticks_others by auto
  ultimately have bm: "bm = Some ''R_10''" using single even_ticks_R10 by blast
  with sel obtain s where "bs = Some s"
    "analyze_market ''R_10'' even_buffer = Inr (Some (s, bc))"
    using even_ticks_R10 by auto
  then have "bs = Some Even" "bc = 1.4 / (1 + sqrt 8 / 10)"
    using analyze_even_buffer [of "''R_10''"] by auto
  with res bm show ?thesis
    by (simp add: even_ticks_R10 even_buffer_length even_ticks_others MARKETS_def)
qed

section \<open>Properties of the notification cycle\<close>

lemma post_quiet:
  assumes "\<forall>k e. net k \<noteq> Post_raises e"
  shows "post net req st = (Inr (net (length (posted st))), st\<lparr>posted := posted st @ [req]\<rparr>)"
  using assms by (cases "net (length (posted st))") (auto simp: post_def Let_def)

lemma send_quiet:
  assumes "\<forall>k e. net k \<noteq> Post_raises e"
  shows "send_telegram_message net message keep st =
     (Inr (handle_of (net (length (posted st)))),
      st\<lparr>posted := posted st @ [SendPhoto message],
         active_messages := active_messages st
            @ (if keep then [] else handles_of [net (length (posted st))])\<rparr>)"
  using assms
  by (cases "net (length (posted st))")
    (auto simp: send_telegram_message_def and_then_def post_quiet [OF assms]
      handle_of_def handles_of_def)

lemma delete_each_quiet:
  assumes "\<forall>k e. net k \<noteq> Post_raises e"
  shows "delete_each net ids st = (Inr (), st\<lparr>posted := posted st @ map DeleteMessage ids\<rparr>)"
proof (induction ids arbitrary: st)
  case Nil
  show ?case by (simp add: returns_def)
next
  case (Cons i ids)
  show ?case by (simp add: and_then_def post_quiet [OF assms] Cons.IH)
qed

lemma delete_messages_quiet:
  assumes "\<forall>k e. net k \<noteq> Post_raises e"
  shows "delete_messages net st =
     (Inr (), st\<lparr>posted := posted st @ map DeleteMessage (active_messages st),
                  active_messages := []\<rparr>)"
  by (simp add: delete_messages_def and_then_def delete_each_quiet [OF assms])

lemma delete_last_expired_quiet:
  assumes "\<forall>k e. net k \<noteq> Post_raises e"
  shows "delete_last_expired net st =
     (Inr (), st\<lparr>posted := posted st @ opening_delete st,
                  last_expired_id := (if opening_delete st = [] then last_expired_id st else None)\<rparr>)"
  by (simp add: delete_last_expired_def opening_delete_def and_then_def post_quiet [OF assms]
      split: option.splits)

lemma cycle_quiet:
  assumes sel: "select_market (market_ticks st) = Inr (Some m, bs, bc)" and ne: "m \<noteq> []"
    and dig: "entry_digit later m = Inr d"
    and quiet: "\<forall>k e. net k \<noteq> Post_raises e"
  shows "fetch_and_analyze net later st =
     (Inr (),
      st\<lparr>posted := posted st @ opening_delete st
           @ [SendPhoto Pre_alert, SendPhoto (Main_signal (market_name m) bs d bc),
              SendPhoto (Signal_expired (market_name m))]
           @ map DeleteMessage (active_messages st
               @ handles_of [net (length (posted st) + length (opening_delete st)),
                             net (length (posted st) + length (opening_delete st) + 1)]),
         active_messages := [],
         last_expired_id := handle_of (net (length (posted st) + length (opening_delete st) + 2))\<rparr>)"
  unfolding fetch_and_analyze_def
  by (simp add: and_then_def delete_last_expired_quiet [OF quiet] send_quiet [OF quiet]
      delete_messages_quiet [OF quiet] sel ne dig handles_of_def add.assoc)

lemma post_appends: "posted (snd (post net req st)) = posted st @ [req]"
  by (cases "net (length (posted st))") (simp_all add: post_def Let_def)

lemma and_then_appends:
  assumes "\<And>st. \<exists>xs. posted (snd (f st)) = posted st @ xs"
    and "\<And>x st. \<exists>xs. posted (snd (g x st)) = posted st @ xs"
  shows "\<exists>xs. posted (snd (and_then f g st)) = posted st @ xs"
proof (cases "f st")
  case (Pair r st')
  from assms(1) [of st] Pair obtain xs where xs: "posted st' = posted st @ xs" by auto
  show ?thesis
  proof (cases r)
    case (Inl e)
    then show ?thesis using Pair xs by (simp add: and_then_def)
  next
    case (Inr x)
    from assms(2) [of x st'] obtain ys where "posted (snd (g x st')) = posted st' @ ys" by auto
    then show ?thesis using Pair Inr xs by (simp add: and_then_def)
  qed
qed

lemma send_appends:
  "\<exists>xs. posted (snd (send_telegram_message net message keep st)) = posted st @ xs"
  unfolding send_telegram_message_def
  by (rule and_then_appends) (auto simp: post_appends split: response.splits)

lemma delete_each_appends:
  "\<exists>xs. posted (snd (delete_each net ids st)) = posted st @ xs"
proof (induction ids arbitrary: st)
  case Nil
  show ?case by (simp add: returns_def)
next
  case (Cons i ids)
  show ?case
    unfolding delete_each.simps
    by (rule and_then_appends) (auto simp: post_appends Cons.IH)
qed

lemma delete_messages_appends:
  "\<exists>xs. posted (snd (delete_messages net st)) = posted st @ xs"
  unfolding delete_messages_def
  by (rule and_then_appends) (auto simp: delete_each_appends)

lemma closing_appends:
  "\<exists>xs. posted (snd (and_then (send_telegram_message net message True)
       (\<lambda>sent st3. delete_messages net (st3\<lparr>last_expired_id := sent\<rparr>)) st)) = posted st @ xs"
proof (rule and_then_appends)
  show "\<exists>xs. posted (snd (send_telegram_message net message True st)) = posted st @ xs" for st
    by (rule send_appends)
  show "\<exists>xs. posted (snd (delete_messages net (st\<lparr>last_expired_id := x\<rparr>))) = posted st @ xs"
    for x st
    using delete_messages_appends [of net "st\<lparr>last_expired_id := x\<rparr>"] by simp
qed

lemma delete_last_expired_appends:
  "posted (snd (delete_last_expired net st)) = posted st @ opening_delete st"
proof (cases "opening_delete st = []")
  case True
  then show ?thesis
    by (auto simp: delete_last_expired_def opening_delete_def split: option.splits if_splits)
next
  case False
  then obtain i where i: "last_expired_id st = Some i" "i \<noteq> 0"
    by (auto simp: opening_delete_def split: option.splits if_splits)
  show ?thesis
    using i
    by (cases "net (length (posted st))")
      (simp_all add: delete_last_expired_def opening_delete_def and_then_def post_def Let_def)
qed

lemma fetch_and_analyze_opens:
  "\<exists>xs. posted (snd (fetch_and_analyze net later st)) = posted st @ opening_delete st @ xs"
proof -
  let ?body = "\<lambda>(u::unit) st.
          case select_market (market_ticks st) of
            Inl e \<Rightarrow> (Inl e, st)
          | Inr (best_market, best_signal, best_confidence) \<Rightarrow>
              (case best_market of
                 None \<Rightarrow> (Inr (), st)
               | Some m \<Rightarrow>
                   if m = [] then (Inr (), st)
                   else
                     and_then (send_telegram_message net Pre_alert False)
                       (\<lambda>_ st1.
                          case entry_digit later m of
                            Inl e \<Rightarrow> (Inl e, st1)
                          | Inr digit \<Rightarrow>
                              and_then
                                (send_telegram_message net
                                   (Main_signal (market_name m) best_signal digit best_confidence)
                                   False)
                                (\<lambda>_. and_then
                                   (send_telegram_message net (Signal_expired (market_name m)) True)
                                   (\<lambda>sent st3.
                                      delete_messages net (st3\<lparr>last_expired_id := sent\<rparr>)))
                                st1)
                       st)"
  have body: "\<exists>xs. posted (snd (?body u st)) = posted st @ xs" for u st
  proof (cases "select_market (market_ticks st)")
    case (Inl e)
    then show ?thesis by simp
  next
    case (Inr r)
    obtain bm bs bc where r: "r = (bm, bs, bc)" by (cases r)
    show ?thesis
    proof (cases "bm = None \<or> bm = Some []")
      case True
      then show ?thesis using Inr r by auto
    next
      case False
      then obtain m where m: "bm = Some m" "m \<noteq> []" by auto
      have "\<exists>xs. posted (snd (and_then (send_telegram_message net Pre_alert False)
                       (\<lambda>_ st1.
                          case entry_digit later m of
                            Inl e \<Rightarrow> (Inl e, st1)
                          | Inr digit \<Rightarrow>
                              and_then
                                (send_telegram_message net
                                   (Main_signal (market_name m) bs digit bc)
                                   False)
                                (\<lambda>_. and_then
                                   (send_telegram_message net (Signal_expired (market_name m)) True)
                                   (\<lambda>sent st3.
                                      delete_messages net (st3\<lparr>last_expired_id := sent\<rparr>)))
                                st1)
                       st)) = posted st @ xs"
      proof (rule and_then_appends)
        show "\<exists>xs. posted (snd (send_telegram_message net Pre_alert False st)) = posted st @ xs"
          for st by (rule send_appends)
        show "\<exists>xs. posted (snd (case entry_digit later m of
                            Inl e \<Rightarrow> (Inl e, st1)
                          | Inr digit \<Rightarrow>
                              and_then
                                (send_telegram_message net
                                   (Main_signal (market_name m) bs digit bc)
                                   False)
                                (\<lambda>_. and_then
                                   (send_telegram_message net (Signal_expired (market_name m)) True)
                                   (\<lambda>sent st3.
                                      delete_messages net (st3\<lparr>last_expired_id := sent\<rparr>)))
                                st1)) = posted st1 @ xs" for x :: "msg_id option" and st1
        proof (cases "entry_digit later m")
          case (Inl e)
          then show ?thesis by simp
        next
          case (Inr digit)
          show ?thesis unfolding Inr sum.case
            by (rule and_then_appends) (auto simp: send_appends closing_appends)
        qed
      qed
      then show ?thesis using Inr r m by simp
    qed
  qed
  have "fetch_and_analyze net later st = and_then (delete_last_expired net) ?body st"
    by (simp add: fetch_and_analyze_def)
  moreover obtain r st' where f: "delete_last_expired net st = (r, st')"
    by (cases "delete_last_expired net st")
  moreover have p: "posted st' = posted st @ opening_delete st"
    using delete_last_expired_appends [of net st] f by simp
  ultimately show ?thesis
  proof (cases r)
    case (Inl e)
    then show ?thesis
      using f p \<open>fetch_and_analyze net later st = and_then (delete_last_expired net) ?body st\<close>
      by (simp add: and_then_def)
  next
    case (Inr u)
    from body obtain xs where "posted (snd (?body u st')) = posted st' @ xs" by blast
    then show ?thesis
      using f p Inr \<open>fetch_and_analyze net later st = and_then (delete_last_expired net) ?body st\<close>
      by (simp add: and_then_def)
  qed
qed

text \<open>
  C2. From a state with no transient handles and a selectable market, with no request
  raising and the three sends answered with ids \<open>p\<close>, \<open>q\<close>, \<open>e\<close> (the expiry id \<open>e\<close>
  non-zero and different from the other handles, as message ids are), the cycle
  returns normally. After the delete of the previously retained expiry message, if
  any, it posts exactly the pre-alert, the main signal and the expiry notification
  and then deletes exactly \<open>p\<close> and \<open>q\<close>. No delete of \<open>e\<close> is posted in this cycle;
  \<open>e\<close> is retained, and whatever the network does in the next cycle, the first
  request of that cycle is the delete of \<open>e\<close>.
\<close>

theorem notification_cycle:
  assumes idle: "active_messages st = []"
    and sel: "select_market (market_ticks st) = Inr (Some m, bs, bc)" and ne: "m \<noteq> []"
    and dig: "entry_digit later m = Inr d"
    and quiet: "\<forall>k e. net k \<noteq> Post_raises e"
    and pre: "net (length (posted st) + length (opening_delete st)) = Resp_ok p"
    and main: "net (length (posted st) + length (opening_delete st) + 1) = Resp_ok q"
    and expiry: "net (length (posted st) + length (opening_delete st) + 2) = Resp_ok e"
    and fresh: "e \<noteq> p" "e \<noteq> q" "e \<noteq> 0" "last_expired_id st \<noteq> Some e"
  shows "\<exists>st'. fetch_and_analyze net later st = (Inr (), st')
     \<and> posted st' = posted st @ opening_delete st
          @ [SendPhoto Pre_alert, SendPhoto (Main_signal (market_name m) bs d bc),
             SendPhoto (Signal_expired (market_name m)), DeleteMessage p, DeleteMessage q]
     \<and> active_messages st' = [] \<and> last_expired_id st' = Some e
     \<and> DeleteMessage e \<notin> set (drop (length (posted st)) (posted st'))
     \<and> (\<forall>net' later'. \<exists>rest.
           posted (snd (fetch_and_analyze net' later' st')) = posted st' @ DeleteMessage e # rest)"
proof -
  let ?st' = "st\<lparr>posted := posted st @ opening_delete st
           @ [SendPhoto Pre_alert, SendPhoto (Main_signal (market_name m) bs d bc),
              SendPhoto (Signal_expired (market_name m))]
           @ map DeleteMessage (active_messages st
               @ handles_of [net (length (posted st) + length (opening_delete st)),
                             net (length (posted st) + length (opening_delete st) + 1)]),
         active_messages := [],
         last_expired_id := handle_of (net (length (posted st) + length (opening_delete st) + 2))\<rparr>"
  have run: "fetch_and_analyze net later st = (Inr (), ?st')"
    by (rule cycle_quiet [OF sel ne dig quiet])
  have posted: "posted ?st' = posted st @ opening_delete st
          @ [SendPhoto Pre_alert, SendPhoto (Main_signal (market_name m) bs d bc),
             SendPhoto (Signal_expired (market_name m)), DeleteMessage p, DeleteMessage q]"
    using pre main by (simp add: idle handles_of_def handle_of_def)
  have last: "last_expired_id ?st' = Some e"
    using expiry by (simp add: handle_of_def)
  have "DeleteMessage e \<notin> set (opening_delete st)"
    using fresh(4) by (auto simp: opening_delete_def split: option.splits if_splits)
  then have kept: "DeleteMessage e \<notin> set (drop (length (posted st)) (posted ?st'))"
    unfolding posted using fresh(1,2) by simp
  have "opening_delete ?st' = [DeleteMessage e]"
    using last fresh(3) by (simp add: opening_delete_def)
  then have next_cycle: "\<exists>rest. posted (snd (fetch_and_analyze net' later' ?st'))
      = posted ?st' @ DeleteMessage e # rest" for net' later'
    using fetch_and_analyze_opens [of net' later' ?st'] by simp
  show ?thesis
  proof (intro exI conjI)
    show "fetch_and_analyze net later st = (Inr (), ?st')" by (rule run)
    show "posted ?st' = posted st @ opening_delete st
          @ [SendPhoto Pre_alert, SendPhoto (Main_signal (market_name m) bs d bc),
             SendPhoto (Signal_expired (market_name m)), DeleteMessage p, DeleteMessage q]"
      by (rule posted)
    show "active_messages ?st' = []" by simp
    show "last_expired_id ?st' = Some e" by (rule last)
    show "DeleteMessage e \<notin> set (drop (length (posted st)) (posted ?st'))" by (rule kept)
    show "\<forall>net' later'. \<exists>rest.
           posted (snd (fetch_and_analyze net' later' ?st')) = posted ?st' @ DeleteMessage e # rest"
      using next_cycle by blast
  qed
qed

lemma idle_state_fields:
  "market_ticks idle_state = even_ticks" "active_messages idle_state = []"
  "last_expired_id idle_state = None" "posted idle_state = []"
  "opening_delete idle_state = []"
  by (simp_all add: idle_state_def opening_delete_def)

text \<open>
  The first cycle on the example state, every request answered with a fresh id.
\<close>

theorem notification_cycle_witness:
  "active_messages idle_state = []
   \<and> select_market (market_ticks idle_state)
       = Inr (Some ''R_10'', Some Even, 1.4 / (1 + sqrt 8 / 10))
   \<and> entry_digit even_ticks ''R_10'' = Inr (Some 8)
   \<and> steady_network 0 = Resp_ok 100 \<and> steady_network 1 = Resp_ok 101
   \<and> steady_network 2 = Resp_ok 102
   \<and> (\<exists>st'. fetch_and_analyze steady_network even_ticks idle_state = (Inr (), st')
        \<and> posted st' =
            [SendPhoto Pre_alert,
             SendPhoto (Main_signal ''Volatility 10 Index'' (Some Even) (Some 8)
                          (1.4 / (1 + sqrt 8 / 10))),
             SendPhoto (Signal_expired ''Volatility 10 Index''),
             DeleteMessage 100, DeleteMessage 101]
        \<and> active_messages st' = [] \<and> last_expired_id st' = Some 102
        \<and> (\<forall>net' later'. \<exists>rest.
              posted (snd (fetch_and_analyze net' later' st')) = posted st' @ DeleteMessage 102 # rest))"
proof -
  have sel: "select_market (market_ticks idle_state)
       = Inr (Some ''R_10'', Some Even, 1.4 / (1 + sqrt 8 / 10))"
    by (simp add: idle_state_fields select_even_ticks)
  have quiet: "\<forall>k e. steady_network k \<noteq> Post_raises e"
    by (simp add: steady_network_def)
  have pre: "steady_network (length (posted idle_state) + length (opening_delete idle_state))
      = Resp_ok 100"
    by (simp add: idle_state_fields steady_network_def)
  have main: "steady_network (length (posted idle_state) + length (opening_delete idle_state) + 1)
      = Resp_ok 101"
    by (simp add: idle_state_fields steady_network_def)
  have expiry: "steady_network (length (posted idle_state) + length (opening_delete idle_state) + 2)
      = Resp_ok 102"
    by (simp add: idle_state_fields steady_network_def)
  have "\<exists>st'. fetch_and_analyze steady_network even_ticks idle_state = (Inr (), st')
     \<and> posted st' = posted idle_state @ opening_delete idle_state
          @ [SendPhoto Pre_alert,
             SendPhoto (Main_signal (market_name ''R_10'') (Some Even) (Some 8)
                          (1.4 / (1 + sqrt 8 / 10))),
             SendPhoto (Signal_expired (market_name ''R_10'')),
             DeleteMessage 100, DeleteMessage 101]
     \<and> active_messages st' = [] \<and> last_expired_id st' = Some 102
     \<and> DeleteMessage 102 \<notin> set (drop (length (posted idle_state)) (posted st'))
     \<and> (\<forall>net' later'. \<exists>rest.
           posted (snd (fetch_and_analyze net' later' st')) = posted st' @ DeleteMessage 102 # rest)"
    by (rule notification_cycle [OF idle_state_fields(2) sel _ entry_digit_even quiet pre main expiry])
      (simp_all add: idle_state_fields)
  then obtain st' where "fetch_and_analyze steady_network even_ticks idle_state = (Inr (), st')"
    "posted st' =
            [SendPhoto Pre_alert,
             SendPhoto (Main_signal ''Volatility 10 Index'' (Some Even) (Some 8)
                          (1.4 / (1 + sqrt 8 / 10))),
             SendPhoto (Signal_expired ''Volatility 10 Index''),
             DeleteMessage 100, DeleteMessage 101]"
    "active_messages st' = []" "last_expired_id st' = Some 102"
    "\<forall>net' later'. \<exists>rest.
           posted (snd (fetch_and_analyze net' later' st')) = posted st' @ DeleteMessage 102 # rest"
    by (auto simp: idle_state_fields market_name_R10)
  moreover have "steady_network 0 = Resp_ok 100 \<and> steady_network 1 = Resp_ok 101
      \<and> steady_network 2 = Resp_ok 102"
    by (simp add: steady_network_def)
  ultimately show ?thesis
    using sel entry_digit_even idle_state_fields(2) by blast
qed




end
